theory Spec2Isabelle
  imports Complex_Main
begin

section \<open>JavaScript values\<close>

text \<open>
  The backend payload is whatever \<^verbatim>\<open>response.json()\<close> returns, and the hook reads it
  untyped. Values are therefore modelled as JavaScript values: the six JSON forms and
  \<^verbatim>\<open>undefined\<close>, which property reads produce. A number is the rational it
  denotes, every finite double being one; arithmetic rounds its exact result to the nearest
  double (section Conversions). The two zeros are one number, and a JSON literal beyond the
  range of the doubles, which parses to an infinity, is not among the values. An object is
  the list of its own properties in the order \<^verbatim>\<open>Object.keys\<close> enumerates them; a
  lookup takes the first entry of a key. A string is a list of characters; the two check
  marks of the stage messages, the only text outside ASCII, are written in their UTF-8 bytes.
\<close>

datatype jsval =
    JUndef
  | JNull
  | JBool bool
  | JNum rat
  | JStr string
  | JArr "jsval list"
  | JObj "(string \<times> jsval) list"

text \<open>A number after arithmetic: a rational, \<^verbatim>\<open>NaN\<close> or an infinity.\<close>

datatype jsnum = Num rat | NaN | PosInf | NegInf

text \<open>
  What the engine supplies and the repository does not define: the text of a number that is
  not a safe integer; the number a string denotes; the messages of the
  \<^verbatim>\<open>TypeError\<close>s raised when a property of \<^verbatim>\<open>null\<close> or
  \<^verbatim>\<open>undefined\<close> is read, when \<^verbatim>\<open>Object.keys\<close> is applied to one, and
  when an object has no primitive value; and the members a value inherits from its prototype.
  Of an inherited member (a method such as \<^verbatim>\<open>constructor\<close> or
  \<^verbatim>\<open>toString\<close>) the program can only take the text: \<open>inherited_text v k\<close> is
  \<^verbatim>\<open>'' + v[k]\<close> for a key \<open>k\<close> that \<open>v\<close> does not own, and \<open>None\<close> when
  \<^verbatim>\<open>v[k]\<close> is \<^verbatim>\<open>undefined\<close>.
\<close>

record runtime =
  number_text :: "rat \<Rightarrow> string"
  string_number :: "string \<Rightarrow> jsnum"
  type_error_text :: "jsval \<Rightarrow> string \<Rightarrow> string"
  keys_error_text :: "jsval \<Rightarrow> string"
  primitive_error_text :: string
  inherited_text :: "jsval \<Rightarrow> string \<Rightarrow> string option"

text \<open>A thrown value: an \<^verbatim>\<open>Error\<close> instance with its message, or anything else.\<close>

datatype thrown = ErrorInstance string | NonError

fun truthy :: "jsval \<Rightarrow> bool" where
  "truthy JUndef = False"
| "truthy JNull = False"
| "truthy (JBool b) = b"
| "truthy (JNum r) = (r \<noteq> 0)"
| "truthy (JStr s) = (s \<noteq> [])"
| "truthy (JArr xs) = True"
| "truthy (JObj kvs) = True"

text \<open>\<^verbatim>\<open>a || b\<close>\<close>

definition or_else :: "jsval \<Rightarrow> jsval \<Rightarrow> jsval" where
  "or_else a b = (if truthy a then a else b)"

text \<open>\<^verbatim>\<open>a ?? b\<close>\<close>

definition nullish :: "jsval \<Rightarrow> bool" where
  "nullish v = (v = JUndef \<or> v = JNull)"

definition coalesce :: "jsval \<Rightarrow> jsval \<Rightarrow> jsval" where
  "coalesce a b = (if nullish a then b else a)"

subsection \<open>Decimal text of an index or an integer\<close>

definition digit_char :: "nat \<Rightarrow> char" where
  "digit_char n = ''0123456789'' ! n"

function show_nat :: "nat \<Rightarrow> string" where
  "show_nat n = (if n < 10 then [digit_char n] else show_nat (n div 10) @ [digit_char (n mod 10)])"
  by pat_completeness auto
termination
  by (relation "measure (\<lambda>n. n)") auto

declare show_nat.simps [simp del]

definition show_int :: "int \<Rightarrow> string" where
  "show_int i = (if i < 0 then CHR ''-'' # show_nat (nat (- i)) else show_nat (nat i))"

subsection \<open>Property reads\<close>

fun lookup :: "(string \<times> jsval) list \<Rightarrow> string \<Rightarrow> jsval" where
  "lookup [] k = JUndef"
| "lookup ((k', v) # kvs) k = (if k' = k then v else lookup kvs k)"

text \<open>The element of an array-like whose index is written \<open>k\<close>, if there is one.\<close>

definition index_of_key :: "nat \<Rightarrow> string \<Rightarrow> nat option" where
  "index_of_key n k = List.find (\<lambda>i. show_nat i = k) [0..<n]"

text \<open>
  The own property \<open>k\<close> of a value that is neither \<^verbatim>\<open>null\<close> nor
  \<^verbatim>\<open>undefined\<close>: a property of an object; the length or an element of an array or of
  a string; \<^verbatim>\<open>undefined\<close> on a number or a boolean. This is \<^verbatim>\<open>v.k\<close> for
  the names \<^verbatim>\<open>processDocument\<close> and \<^verbatim>\<open>getAllClaims\<close> read
  (\<^verbatim>\<open>success\<close>, \<^verbatim>\<open>error\<close>, \<^verbatim>\<open>data\<close>,
  \<^verbatim>\<open>extracted_schema\<close>, \<^verbatim>\<open>extraction_metadata\<close>, \<^verbatim>\<open>source_file\<close>,
  \<^verbatim>\<open>method\<close>, \<^verbatim>\<open>summary\<close>, \<^verbatim>\<open>avg_confidence\<close>,
  \<^verbatim>\<open>claims_count\<close>, \<^verbatim>\<open>claims\<close>, \<^verbatim>\<open>length\<close>), none of which a
  prototype defines. A read by a name taken from the data goes through \<open>get_member\<close> below.
\<close>

fun own :: "jsval \<Rightarrow> string \<Rightarrow> jsval" where
  "own (JObj kvs) k = lookup kvs k"
| "own (JArr xs) k =
     (if k = ''length'' then JNum (of_nat (length xs))
      else case index_of_key (length xs) k of Some i \<Rightarrow> xs ! i | None \<Rightarrow> JUndef)"
| "own (JStr s) k =
     (if k = ''length'' then JNum (of_nat (length s))
      else case index_of_key (length s) k of Some i \<Rightarrow> JStr [s ! i] | None \<Rightarrow> JUndef)"
| "own v k = JUndef"

text \<open>Whether the value has the own property \<open>k\<close>.\<close>

fun has_own :: "jsval \<Rightarrow> string \<Rightarrow> bool" where
  "has_own (JObj kvs) k = (k \<in> set (map fst kvs))"
| "has_own (JArr xs) k =
     (if k = ''length'' then True
      else case index_of_key (length xs) k of Some i \<Rightarrow> True | None \<Rightarrow> False)"
| "has_own (JStr s) k =
     (if k = ''length'' then True
      else case index_of_key (length s) k of Some i \<Rightarrow> True | None \<Rightarrow> False)"
| "has_own v k = False"

text \<open>\<^verbatim>\<open>v.k\<close>: raises on \<^verbatim>\<open>null\<close> and \<^verbatim>\<open>undefined\<close>.\<close>

definition read_prop :: "runtime \<Rightarrow> jsval \<Rightarrow> string \<Rightarrow> thrown + jsval" where
  "read_prop rt v k = (if nullish v then Inl (ErrorInstance (type_error_text rt v k)) else Inr (own v k))"

text \<open>\<^verbatim>\<open>v?.k\<close>: \<^verbatim>\<open>undefined\<close> on \<^verbatim>\<open>null\<close> and \<^verbatim>\<open>undefined\<close>.\<close>

definition read_opt :: "jsval \<Rightarrow> string \<Rightarrow> jsval" where
  "read_opt v k = (if nullish v then JUndef else own v k)"

text \<open>
  \<^verbatim>\<open>v[k]\<close> for any key: it raises on \<^verbatim>\<open>null\<close> and \<^verbatim>\<open>undefined\<close>; an
  own property is a value of the data; a key the value does not own is looked up along the
  prototype chain, where it finds a member of the engine or nothing.
\<close>

datatype member = Own jsval | Inherited string

definition get_member :: "runtime \<Rightarrow> jsval \<Rightarrow> string \<Rightarrow> thrown + member" where
  "get_member rt v k =
     (if nullish v then Inl (ErrorInstance (type_error_text rt v k))
      else if has_own v k then Inr (Own (own v k))
      else case inherited_text rt v k of None \<Rightarrow> Inr (Own JUndef) | Some t \<Rightarrow> Inr (Inherited t))"

section \<open>The document registry\<close>

datatype ProcessingStage =
    queued
  | rotation_check
  | text_extraction
  | schema_extraction
  | policy_detection
  | claim_extraction
  | validation
  | complete
  | error

text \<open>A browser \<^verbatim>\<open>File\<close>: its name, its size and its bytes.\<close>

record File =
  file_name :: string
  file_size :: nat
  file_bytes :: "nat list"

text \<open>
  \<^verbatim>\<open>DocumentMetadata\<close>. The interface declares strings and numbers; the hook stores
  whatever the payload holds, so the fields carry JavaScript values.
\<close>

record DocumentMetadata =
  insurer :: jsval
  format :: jsval
  confidence :: jsnum
  claims_count :: jsval

text \<open>
  \<^verbatim>\<open>DocumentFile\<close>. \<open>None\<close> is \<^verbatim>\<open>null\<close> (an absent \<^verbatim>\<open>metadata\<close>);
  a \<^verbatim>\<open>null\<close> result is \<open>JNull\<close>. Times are milliseconds. The fields
  \<^verbatim>\<open>id\<close>, \<^verbatim>\<open>file\<close>, \<^verbatim>\<open>name\<close> and \<^verbatim>\<open>size\<close> carry the prefix
  \<open>doc_\<close>, and \<^verbatim>\<open>error\<close> is \<open>error_text\<close>, \<open>error\<close> being a stage.
\<close>

record DocumentFile =
  doc_id :: string
  doc_file :: File
  doc_name :: string
  doc_size :: nat
  stage :: ProcessingStage
  stageMessage :: string
  progress :: nat
  result :: jsval
  metadata :: "DocumentMetadata option"
  error_text :: "string option"
  startedAt :: "nat option"
  completedAt :: "nat option"

text \<open>\<^verbatim>\<open>Partial<DocumentFile>\<close>: \<open>None\<close> is a key the object does not have.\<close>

record updates =
  u_id :: "string option"
  u_file :: "File option"
  u_name :: "string option"
  u_size :: "nat option"
  u_stage :: "ProcessingStage option"
  u_stageMessage :: "string option"
  u_progress :: "nat option"
  u_result :: "jsval option"
  u_metadata :: "DocumentMetadata option"
  u_error :: "string option option"
  u_startedAt :: "nat option option"
  u_completedAt :: "nat option option"

definition no_updates :: updates where
  "no_updates = \<lparr>u_id = None, u_file = None, u_name = None, u_size = None, u_stage = None,
     u_stageMessage = None, u_progress = None, u_result = None, u_metadata = None,
     u_error = None, u_startedAt = None, u_completedAt = None\<rparr>"

text \<open>\<^verbatim>\<open>{ ...d, ...updates }\<close>\<close>

definition spread :: "DocumentFile \<Rightarrow> updates \<Rightarrow> DocumentFile" where
  "spread d u =
     \<lparr>doc_id = (case u_id u of None \<Rightarrow> doc_id d | Some x \<Rightarrow> x),
      doc_file = (case u_file u of None \<Rightarrow> doc_file d | Some x \<Rightarrow> x),
      doc_name = (case u_name u of None \<Rightarrow> doc_name d | Some x \<Rightarrow> x),
      doc_size = (case u_size u of None \<Rightarrow> doc_size d | Some x \<Rightarrow> x),
      stage = (case u_stage u of None \<Rightarrow> stage d | Some x \<Rightarrow> x),
      stageMessage = (case u_stageMessage u of None \<Rightarrow> stageMessage d | Some x \<Rightarrow> x),
      progress = (case u_progress u of None \<Rightarrow> progress d | Some x \<Rightarrow> x),
      result = (case u_result u of None \<Rightarrow> result d | Some x \<Rightarrow> x),
      metadata = (case u_metadata u of None \<Rightarrow> metadata d | Some x \<Rightarrow> Some x),
      error_text = (case u_error u of None \<Rightarrow> error_text d | Some x \<Rightarrow> x),
      startedAt = (case u_startedAt u of None \<Rightarrow> startedAt d | Some x \<Rightarrow> x),
      completedAt = (case u_completedAt u of None \<Rightarrow> completedAt d | Some x \<Rightarrow> x)\<rparr>"

text \<open>
  \<^verbatim>\<open>updateDoc\<close>: \<^verbatim>\<open>prev.map((d) => (d.id === id ? { ...d, ...updates } : d))\<close>.
  React applies the queued state updaters in the order of the calls; the model applies each
  at its call.
\<close>

definition updateDoc :: "string \<Rightarrow> updates \<Rightarrow> DocumentFile list \<Rightarrow> DocumentFile list" where
  "updateDoc i u prev = map (\<lambda>d. if doc_id d = i then spread d u else d) prev"

section \<open>Conversions\<close>

fun join :: "string \<Rightarrow> string list \<Rightarrow> string" where
  "join sep [] = []"
| "join sep [x] = x"
| "join sep (x # y # ys) = x @ sep @ join sep (y # ys)"

text \<open>
  \<^verbatim>\<open>Number.prototype.toString\<close>: a safe integer (below \<open>2\<^sup>5\<^sup>3\<close> in absolute
  value) is written in its decimal digits; any other number is written by the engine.
\<close>

definition number_to_string :: "runtime \<Rightarrow> rat \<Rightarrow> string" where
  "number_to_string rt r =
     (if r = of_int \<lfloor>r\<rfloor> \<and> \<bar>r\<bar> < 2 ^ 53 then show_int \<lfloor>r\<rfloor> else number_text rt r)"

text \<open>
  \<^verbatim>\<open>String(v)\<close>, which is also \<^verbatim>\<open>'' + v\<close> on these values. An array joins the
  texts of its elements with commas, from left to right, a \<^verbatim>\<open>null\<close> or
  \<^verbatim>\<open>undefined\<close> element giving the empty text. An object is converted by its
  \<^verbatim>\<open>toString\<close> method: the inherited one gives \<^verbatim>\<open>[object Object]\<close>; an own
  property of that name, which in parsed JSON is never a function, hides it, and the
  conversion raises a \<^verbatim>\<open>TypeError\<close>.
\<close>

fun to_string :: "runtime \<Rightarrow> jsval \<Rightarrow> thrown + string"
  and element_texts :: "runtime \<Rightarrow> jsval list \<Rightarrow> thrown + string list" where
  "to_string rt JUndef = Inr ''undefined''"
| "to_string rt JNull = Inr ''null''"
| "to_string rt (JBool b) = Inr (if b then ''true'' else ''false'')"
| "to_string rt (JNum r) = Inr (number_to_string rt r)"
| "to_string rt (JStr s) = Inr s"
| "to_string rt (JArr xs) =
     (case element_texts rt xs of Inl e \<Rightarrow> Inl e | Inr texts \<Rightarrow> Inr (join '','' texts))"
| "to_string rt (JObj kvs) =
     (if ''toString'' \<in> set (map fst kvs) then Inl (ErrorInstance (primitive_error_text rt))
      else Inr ''[object Object]'')"
| "element_texts rt [] = Inr []"
| "element_texts rt (x # xs) =
     (case (if x = JUndef \<or> x = JNull then Inr [] else to_string rt x) of Inl e \<Rightarrow> Inl e
      | Inr t \<Rightarrow>
     case element_texts rt xs of Inl e \<Rightarrow> Inl e | Inr texts \<Rightarrow> Inr (t # texts))"

text \<open>
  \<^verbatim>\<open>Number(v)\<close>, as the operand of \<^verbatim>\<open>*\<close>: an array or an object is first
  converted to its text, which may raise.
\<close>

fun to_number :: "runtime \<Rightarrow> jsval \<Rightarrow> thrown + jsnum" where
  "to_number rt JUndef = Inr NaN"
| "to_number rt JNull = Inr (Num 0)"
| "to_number rt (JBool b) = Inr (Num (if b then 1 else 0))"
| "to_number rt (JNum r) = Inr (Num r)"
| "to_number rt (JStr s) = Inr (string_number rt s)"
| "to_number rt (JArr xs) =
     (case to_string rt (JArr xs) of Inl e \<Rightarrow> Inl e | Inr s \<Rightarrow> Inr (string_number rt s))"
| "to_number rt (JObj kvs) =
     (case to_string rt (JObj kvs) of Inl e \<Rightarrow> Inl e | Inr s \<Rightarrow> Inr (string_number rt s))"

subsection \<open>Double arithmetic\<close>

text \<open>
  The nearest integer, a tie going to the even one.
\<close>

definition round_half_even :: "rat \<Rightarrow> int" where
  "round_half_even r =
     (let f = \<lfloor>r\<rfloor>; d = r - of_int f
      in if d < 1 / 2 then f else if 1 / 2 < d then f + 1 else if even f then f else f + 1)"

text \<open>
  The binary exponent of a magnitude \<open>y\<close>, counted in units of \<open>2\<^sup>-\<^sup>1\<^sup>0\<^sup>7\<^sup>4\<close>, the smallest
  double: the least \<open>k\<close> with \<open>y < 2\<^sup>5\<^sup>3\<^sup>+\<^sup>k\<close>, searched upwards from \<open>k\<close>.
\<close>

fun find_shift :: "nat \<Rightarrow> nat \<Rightarrow> rat \<Rightarrow> nat" where
  "find_shift 0 k y = k"
| "find_shift (Suc n) k y = (if y < 2 ^ (53 + k) then k else find_shift n (Suc k) y)"

text \<open>
  The double nearest to a rational (IEEE 754 binary64, round to nearest, ties to even): the
  magnitude is rounded to 53 significant bits, or to a multiple of \<open>2\<^sup>-\<^sup>1\<^sup>0\<^sup>7\<^sup>4\<close> when it is
  that small, and a result of \<open>2\<^sup>1\<^sup>0\<^sup>2\<^sup>4\<close> or more is an infinity.
\<close>

definition to_double :: "rat \<Rightarrow> jsnum" where
  "to_double x =
     (let y = \<bar>x\<bar> * 2 ^ 1074;
          k = find_shift 2046 0 y;
          u = of_int (round_half_even (y / 2 ^ k)) * 2 ^ k
      in if 2 ^ 2098 \<le> u then (if x < 0 then NegInf else PosInf)
         else Num (sgn x * u / 2 ^ 1074))"

text \<open>\<^verbatim>\<open>x * 100\<close>: the exact product, rounded to a double.\<close>

fun times100 :: "jsnum \<Rightarrow> jsnum" where
  "times100 (Num r) = to_double (r * 100)"
| "times100 NaN = NaN"
| "times100 PosInf = PosInf"
| "times100 NegInf = NegInf"

text \<open>\<^verbatim>\<open>Math.round\<close>: the nearest integer, a half going up.\<close>

fun math_round :: "jsnum \<Rightarrow> jsnum" where
  "math_round (Num r) = Num (of_int \<lfloor>r + 1 / 2\<rfloor>)"
| "math_round NaN = NaN"
| "math_round PosInf = PosInf"
| "math_round NegInf = NegInf"

section \<open>The result projector\<close>

text \<open>
  Lines 97 to 106 of \<^verbatim>\<open>processDocument\<close>, on \<^verbatim>\<open>json.data\<close>. Every read of a
  property of \<^verbatim>\<open>backendResult\<close> raises when that value is \<^verbatim>\<open>null\<close> or
  \<^verbatim>\<open>undefined\<close>; the product raises when the average confidence has no primitive
  value; and \<^verbatim>\<open>schema.claims.length\<close> raises when \<^verbatim>\<open>schema.claims\<close> is
  \<^verbatim>\<open>null\<close> or \<^verbatim>\<open>undefined\<close>. The result is the schema and the metadata.
\<close>

definition default_schema :: jsval where
  "default_schema = JObj [(''claims'', JArr [])]"

definition project :: "runtime \<Rightarrow> jsval \<Rightarrow> thrown + (jsval \<times> DocumentMetadata)" where
  "project rt backendResult =
     (case read_prop rt backendResult ''extracted_schema'' of Inl e \<Rightarrow> Inl e | Inr es \<Rightarrow>
      let schema = or_else es default_schema in
      case read_prop rt backendResult ''extraction_metadata'' of Inl e \<Rightarrow> Inl e | Inr em1 \<Rightarrow>
      let the_insurer = or_else (read_opt em1 ''source_file'') (JStr ''Unknown'') in
      case read_prop rt backendResult ''extraction_metadata'' of Inl e \<Rightarrow> Inl e | Inr em2 \<Rightarrow>
      let the_format = or_else (read_opt em2 ''method'') (JStr ''standard'') in
      case read_prop rt backendResult ''summary'' of Inl e \<Rightarrow> Inl e | Inr sm1 \<Rightarrow>
      case (if truthy (read_opt sm1 ''avg_confidence'')
            then (case read_prop rt backendResult ''summary'' of Inl e \<Rightarrow> Inl e | Inr sm2 \<Rightarrow>
                  case read_prop rt sm2 ''avg_confidence'' of Inl e \<Rightarrow> Inl e | Inr ac \<Rightarrow>
                  case to_number rt ac of Inl e \<Rightarrow> Inl e | Inr n \<Rightarrow>
                  Inr (math_round (times100 n)))
            else Inr (Num 95)) of Inl e \<Rightarrow> Inl e | Inr the_confidence \<Rightarrow>
      case read_prop rt backendResult ''summary'' of Inl e \<Rightarrow> Inl e | Inr sm3 \<Rightarrow>
      case (if truthy (read_opt sm3 ''claims_count'') then Inr (read_opt sm3 ''claims_count'')
            else (case read_prop rt schema ''claims'' of Inl e \<Rightarrow> Inl e | Inr cl \<Rightarrow>
                  read_prop rt cl ''length'')) of Inl e \<Rightarrow> Inl e | Inr the_count \<Rightarrow>
      Inr (schema, \<lparr>insurer = the_insurer, format = the_format,
                    confidence = the_confidence, claims_count = the_count\<rparr>))"

section \<open>The stage script\<close>

record step =
  step_stage :: ProcessingStage
  step_message :: string
  duration :: "nat \<times> nat"

definition check_mark :: string where
  "check_mark = [CHR 0xE2, CHR 0x9C, CHR 0x93]"

definition check_box :: string where
  "check_box = [CHR 0xE2, CHR 0x9C, CHR 0x85]"

definition STAGE_FLOW :: "step list" where
  "STAGE_FLOW =
    [\<lparr>step_stage = rotation_check, step_message = ''Checking for rotation...'', duration = (800, 1500)\<rparr>,
     \<lparr>step_stage = rotation_check, step_message = check_box @ '' PDF already correctly oriented'', duration = (500, 800)\<rparr>,
     \<lparr>step_stage = text_extraction, step_message = ''Extracting text from pages...'', duration = (1500, 3000)\<rparr>,
     \<lparr>step_stage = text_extraction, step_message = check_mark @ '' Combined text saved'', duration = (400, 700)\<rparr>,
     \<lparr>step_stage = schema_extraction, step_message = ''Analyzing document format...'', duration = (1000, 2000)\<rparr>,
     \<lparr>step_stage = policy_detection, step_message = ''Detecting policy boundaries...'', duration = (1200, 2500)\<rparr>,
     \<lparr>step_stage = policy_detection, step_message = ''Using AI to detect claim number patterns...'', duration = (1500, 3000)\<rparr>,
     \<lparr>step_stage = claim_extraction, step_message = ''Extracting claims using adaptive prompt...'', duration = (2000, 4000)\<rparr>,
     \<lparr>step_stage = validation, step_message = ''Validating extraction...'', duration = (800, 1500)\<rparr>,
     \<lparr>step_stage = validation, step_message = check_mark @ '' Extraction is COMPLETE'', duration = (500, 800)\<rparr>]"

section \<open>The hook as a transition system\<close>

text \<open>
  The hook runs on one event loop. Between two suspension points (\<^verbatim>\<open>await\<close>) a task
  runs alone, so the state changes in atomic steps, one per event: a batch of files is
  added, a simulator's timer fires, a \<^verbatim>\<open>fetch\<close> settles, a response body settles,
  the user selects a document. The random delays of the simulator decide only the order of
  these events, which is left free.

  Each invocation of \<^verbatim>\<open>processDocument\<close> has its own \<^verbatim>\<open>isSimulationRunning\<close>
  variable, shared by its simulator and its main body. The state keeps one entry per
  invocation, in the order of the invocations: the identifier and file it was called with,
  that variable, where the main body is suspended and where the simulator is.
\<close>

datatype main_phase = AwaitFetch | AwaitJson | Returned

text \<open>\<open>Sleeping k\<close>: the simulator waits for the timer of step \<open>k\<close> of the script.\<close>

datatype sim_phase = Sleeping nat | Finished

record call =
  c_id :: string
  c_file :: File
  isSimulationRunning :: bool
  c_main :: main_phase
  c_sim :: sim_phase

text \<open>Who called \<^verbatim>\<open>updateDoc\<close>: the simulator or the main body of an invocation, or the
  \<^verbatim>\<open>catch\<close> of the queue worker.\<close>

datatype writer = Simulator nat | Main nat | Worker

text \<open>
  \<open>writes\<close> records every call of \<^verbatim>\<open>updateDoc\<close> in order; the program does not read
  it.
\<close>

record sys =
  documents :: "DocumentFile list"
  activeDocId :: "string option"
  processingQueue :: "(string \<times> File) list"
  isProcessing :: bool
  calls :: "call list"
  writes :: "(writer \<times> string \<times> updates) list"

definition init :: sys where
  "init = \<lparr>documents = [], activeDocId = None, processingQueue = [], isProcessing = False,
            calls = [], writes = []\<rparr>"

definition write_doc :: "writer \<Rightarrow> string \<Rightarrow> updates \<Rightarrow> sys \<Rightarrow> sys" where
  "write_doc w i u s =
     s\<lparr>documents := updateDoc i u (documents s), writes := writes s @ [(w, i, u)]\<rparr>"

definition set_call :: "nat \<Rightarrow> (call \<Rightarrow> call) \<Rightarrow> sys \<Rightarrow> sys" where
  "set_call c f s = s\<lparr>calls := (calls s)[c := f (calls s ! c)]\<rparr>"

subsection \<open>The stage simulator\<close>

text \<open>
  One iteration of the loop of \<^verbatim>\<open>runSimulation\<close>, at step \<open>k\<close> of the script: past
  the end the loop is over; with the flag cleared it breaks; otherwise it writes the stage
  and the message of the step and waits for the step's timer.
\<close>

definition step_updates :: "nat \<Rightarrow> updates" where
  "step_updates k =
     no_updates\<lparr>u_stage := Some (step_stage (STAGE_FLOW ! k)),
                 u_stageMessage := Some (step_message (STAGE_FLOW ! k))\<rparr>"

definition runSimulation :: "nat \<Rightarrow> nat \<Rightarrow> sys \<Rightarrow> sys" where
  "runSimulation c k s =
     (if k < length STAGE_FLOW then
        (if \<not> isSimulationRunning (calls s ! c) then set_call c (\<lambda>x. x\<lparr>c_sim := Finished\<rparr>) s
         else set_call c (\<lambda>x. x\<lparr>c_sim := Sleeping k\<rparr>)
                (write_doc (Simulator c) (c_id (calls s ! c)) (step_updates k) s))
      else set_call c (\<lambda>x. x\<lparr>c_sim := Finished\<rparr>) s)"

subsection \<open>The upload and extract operation\<close>

text \<open>How \<^verbatim>\<open>fetch\<close> settles: rejected, or a response with its \<^verbatim>\<open>ok\<close> and
  \<^verbatim>\<open>statusText\<close>. How \<^verbatim>\<open>response.json()\<close> settles: rejected (a body that is
  not JSON), or the parsed value.\<close>

datatype fetch_outcome = FetchRejected thrown | Response bool string

datatype body_outcome = BodyRejected thrown | Body jsval

text \<open>
  \<^verbatim>\<open>processDocument\<close> up to its first suspension: the starting write, the flag, the
  first iteration of the simulator, the request. \<open>now\<close> is the reading of the clock.
\<close>

definition start_updates :: "nat \<Rightarrow> updates" where
  "start_updates now =
     no_updates\<lparr>u_stage := Some rotation_check,
                 u_stageMessage := Some ''Starting processing...'',
                 u_startedAt := Some (Some now)\<rparr>"

definition processDocument_start :: "string \<Rightarrow> File \<Rightarrow> nat \<Rightarrow> sys \<Rightarrow> sys" where
  "processDocument_start i f now s =
     (let c = length (calls s);
          s1 = write_doc (Main c) i (start_updates now) s;
          s2 = s1\<lparr>calls := calls s1 @
                 [\<lparr>c_id = i, c_file = f, isSimulationRunning = True,
                   c_main = AwaitFetch, c_sim = Sleeping 0\<rparr>]\<rparr>
      in runSimulation c 0 s2)"

text \<open>
  The \<^verbatim>\<open>try\<close> block from \<^verbatim>\<open>response.json()\<close> on (lines 92 to 116): what it
  throws, or the fields of its final write. \<^verbatim>\<open>new Error(m)\<close> converts \<open>m\<close> to a
  string, which may itself raise.
\<close>

definition after_json :: "runtime \<Rightarrow> jsval \<Rightarrow> nat \<Rightarrow> thrown + updates" where
  "after_json rt json now =
     (case read_prop rt json ''success'' of Inl e \<Rightarrow> Inl e | Inr ok \<Rightarrow>
      if \<not> truthy ok then
        (case read_prop rt json ''error'' of Inl e \<Rightarrow> Inl e | Inr er \<Rightarrow>
         case to_string rt (or_else er (JStr ''Unknown backend error'')) of Inl e \<Rightarrow> Inl e
         | Inr message \<Rightarrow> Inl (ErrorInstance message))
      else
        (case read_prop rt json ''data'' of Inl e \<Rightarrow> Inl e | Inr backendResult \<Rightarrow>
         case project rt backendResult of Inl e \<Rightarrow> Inl e | Inr (schema, m) \<Rightarrow>
         Inr (no_updates\<lparr>u_stage := Some complete,
                          u_stageMessage := Some (check_mark @ '' Extraction complete''),
                          u_result := Some schema,
                          u_metadata := Some m,
                          u_completedAt := Some (Some now)\<rparr>)))"

text \<open>The fields the \<^verbatim>\<open>catch\<close> block of \<^verbatim>\<open>processDocument\<close> writes.\<close>

definition catch_updates :: "thrown \<Rightarrow> updates" where
  "catch_updates e =
     no_updates\<lparr>u_stage := Some error,
                 u_error := Some (Some (case e of ErrorInstance m \<Rightarrow> m | NonError \<Rightarrow> ''Processing failed'')),
                 u_stageMessage := Some ''Error''\<rparr>"

text \<open>
  The \<^verbatim>\<open>catch\<close> block: it clears the flag and writes; then the function returns. The
  first component is what \<^verbatim>\<open>processDocument\<close> throws to its caller.
\<close>

definition catch_block :: "nat \<Rightarrow> thrown \<Rightarrow> sys \<Rightarrow> thrown option \<times> sys" where
  "catch_block c e s =
     (let s1 = set_call c (\<lambda>x. x\<lparr>isSimulationRunning := False\<rparr>) s;
          s2 = write_doc (Main c) (c_id (calls s1 ! c)) (catch_updates e) s1
      in (None, set_call c (\<lambda>x. x\<lparr>c_main := Returned\<rparr>) s2))"

text \<open>
  The main body resumed when \<^verbatim>\<open>fetch\<close> settles: on the left it has returned, on
  the right it is suspended again, at \<^verbatim>\<open>response.json()\<close>.
\<close>

definition on_fetch :: "nat \<Rightarrow> fetch_outcome \<Rightarrow> sys \<Rightarrow> (thrown option \<times> sys) + sys" where
  "on_fetch c out s =
     (case out of
        FetchRejected e \<Rightarrow> Inl (catch_block c e s)
      | Response ok statusText \<Rightarrow>
          (let s1 = set_call c (\<lambda>x. x\<lparr>isSimulationRunning := False\<rparr>) s in
           if \<not> ok then Inl (catch_block c (ErrorInstance (''Server error: '' @ statusText)) s1)
           else Inr (set_call c (\<lambda>x. x\<lparr>c_main := AwaitJson\<rparr>) s1)))"

text \<open>The main body resumed when the body of the response settles.\<close>

definition on_json :: "runtime \<Rightarrow> nat \<Rightarrow> body_outcome \<Rightarrow> nat \<Rightarrow> sys \<Rightarrow> thrown option \<times> sys" where
  "on_json rt c out now s =
     (case (case out of BodyRejected e \<Rightarrow> Inl e | Body json \<Rightarrow> after_json rt json now) of
        Inl e \<Rightarrow> catch_block c e s
      | Inr u \<Rightarrow>
          (None, set_call c (\<lambda>x. x\<lparr>c_main := Returned\<rparr>)
                   (write_doc (Main c) (c_id (calls s ! c)) u s)))"

subsection \<open>The processing queue\<close>

text \<open>
  The loop of \<^verbatim>\<open>processQueue\<close> at its head: with the list empty the worker clears
  \<^verbatim>\<open>isProcessing\<close> and ends; otherwise it shifts the first item, selects it and calls
  \<^verbatim>\<open>processDocument\<close>, which suspends it.
\<close>

definition processQueue_loop :: "nat \<Rightarrow> sys \<Rightarrow> sys" where
  "processQueue_loop now s =
     (case processingQueue s of
        [] \<Rightarrow> s\<lparr>isProcessing := False\<rparr>
      | item # rest \<Rightarrow>
          processDocument_start (fst item) (snd item) now
            (s\<lparr>processingQueue := rest, activeDocId := Some (fst item)\<rparr>))"

definition processQueue :: "nat \<Rightarrow> sys \<Rightarrow> sys" where
  "processQueue now s =
     (if isProcessing s then s else processQueue_loop now (s\<lparr>isProcessing := True\<rparr>))"

text \<open>
  The worker resumed when \<^verbatim>\<open>processDocument\<close> settles for the invocation \<open>c\<close>:
  its \<^verbatim>\<open>catch\<close> writes the error of a call that threw, and the loop goes on.
\<close>

definition worker_resume :: "nat \<Rightarrow> nat \<Rightarrow> thrown option \<times> sys \<Rightarrow> sys" where
  "worker_resume c now r =
     (case fst r of
        None \<Rightarrow> processQueue_loop now (snd r)
      | Some e \<Rightarrow>
          processQueue_loop now
            (write_doc Worker (c_id (calls (snd r) ! c))
               (no_updates\<lparr>u_stage := Some error, u_error := Some (Some ''Processing failed''),
                           u_stageMessage := Some ''Error''\<rparr>) (snd r)))"

subsection \<open>Adding files\<close>

text \<open>
  The identifier: the reading of the clock in decimal, a hyphen, and the random suffix
  \<^verbatim>\<open>Math.random().toString(36).slice(2, 8)\<close>, which the environment supplies.
\<close>

definition make_id :: "nat \<Rightarrow> string \<Rightarrow> string" where
  "make_id t r = show_nat t @ ''-'' @ r"

definition new_doc :: "File \<times> nat \<times> string \<Rightarrow> DocumentFile" where
  "new_doc x =
     (case x of (f, t, r) \<Rightarrow>
       \<lparr>doc_id = make_id t r, doc_file = f, doc_name = file_name f, doc_size = file_size f,
        stage = queued, stageMessage = ''Waiting in queue...'', progress = 0, result = JNull,
        metadata = None, error_text = None, startedAt = None, completedAt = None\<rparr>)"

definition newDocs :: "(File \<times> nat \<times> string) list \<Rightarrow> DocumentFile list" where
  "newDocs files = map new_doc files"

text \<open>
  \<^verbatim>\<open>addFiles\<close>. Each file comes with the clock reading and the random suffix drawn for
  it. \<^verbatim>\<open>activeDocId\<close> is read as the current selection.
\<close>

definition addFiles :: "(File \<times> nat \<times> string) list \<Rightarrow> nat \<Rightarrow> sys \<Rightarrow> sys" where
  "addFiles files now s =
     (let nd = newDocs files;
          s1 = s\<lparr>documents := documents s @ nd\<rparr>;
          s2 = (if (case activeDocId s1 of None \<Rightarrow> True | Some a \<Rightarrow> a = []) \<and> length nd > 0
                then s1\<lparr>activeDocId := Some (doc_id (hd nd))\<rparr> else s1);
          s3 = s2\<lparr>processingQueue := processingQueue s2 @ map (\<lambda>d. (doc_id d, doc_file d)) nd\<rparr>
      in processQueue now s3)"

subsection \<open>Events and runs\<close>

datatype event =
    AddFiles "(File \<times> nat \<times> string) list" nat
  | TimerFires nat
  | FetchSettles nat fetch_outcome nat
  | JsonSettles nat body_outcome nat
  | SelectDoc string

text \<open>
  An event names the invocation it resumes and carries what the environment supplies: how
  the request or the body settled, and the reading of the clock, one per event. An event
  that no suspended task waits for changes nothing.
\<close>

definition step :: "runtime \<Rightarrow> event \<Rightarrow> sys \<Rightarrow> sys" where
  "step rt ev s =
     (case ev of
        AddFiles files now \<Rightarrow> addFiles files now s
      | TimerFires c \<Rightarrow>
          (if c < length (calls s) then
             (case c_sim (calls s ! c) of
                Sleeping k \<Rightarrow> runSimulation c (Suc k) s
              | Finished \<Rightarrow> s)
           else s)
      | FetchSettles c out now \<Rightarrow>
          (if c < length (calls s) \<and> c_main (calls s ! c) = AwaitFetch then
             (case on_fetch c out s of
                Inl r \<Rightarrow> worker_resume c now r
              | Inr s' \<Rightarrow> s')
           else s)
      | JsonSettles c out now \<Rightarrow>
          (if c < length (calls s) \<and> c_main (calls s ! c) = AwaitJson then
             worker_resume c now (on_json rt c out now s)
           else s)
      | SelectDoc i \<Rightarrow> s\<lparr>activeDocId := Some i\<rparr>)"

fun run :: "runtime \<Rightarrow> event list \<Rightarrow> sys \<Rightarrow> sys" where
  "run rt [] s = s"
| "run rt (ev # evs) s = run rt evs (step rt ev s)"

section \<open>Result export\<close>

text \<open>\<^verbatim>\<open>MergeJsonButton\<close>, lines 9 to 54.\<close>

definition completedDocs :: "DocumentFile list \<Rightarrow> DocumentFile list" where
  "completedDocs docs = filter (\<lambda>d. stage d = complete \<and> truthy (result d)) docs"

text \<open>What \<^verbatim>\<open>flatMap\<close> appends for a callback result: the elements of an array, or the
  value itself.\<close>

fun flat :: "jsval \<Rightarrow> jsval list" where
  "flat (JArr xs) = xs"
| "flat v = [v]"

definition getAllClaims :: "DocumentFile list \<Rightarrow> jsval list" where
  "getAllClaims docs =
     concat (map (\<lambda>d. flat (or_else (read_opt (result d) ''claims'') (JArr []))) (completedDocs docs))"

text \<open>\<^verbatim>\<open>Object.keys\<close>\<close>

fun object_keys :: "runtime \<Rightarrow> jsval \<Rightarrow> thrown + string list" where
  "object_keys rt JUndef = Inl (ErrorInstance (keys_error_text rt JUndef))"
| "object_keys rt JNull = Inl (ErrorInstance (keys_error_text rt JNull))"
| "object_keys rt (JObj kvs) = Inr (map fst kvs)"
| "object_keys rt (JArr xs) = Inr (map show_nat [0..<length xs])"
| "object_keys rt (JStr s) = Inr (map show_nat [0..<length s])"
| "object_keys rt v = Inr []"

text \<open>\<^verbatim>\<open>claims.flatMap(c => Object.keys(c))\<close>\<close>

fun all_keys :: "runtime \<Rightarrow> jsval list \<Rightarrow> thrown + string list" where
  "all_keys rt [] = Inr []"
| "all_keys rt (c # cs) =
     (case object_keys rt c of Inl e \<Rightarrow> Inl e | Inr ks \<Rightarrow>
      case all_keys rt cs of Inl e \<Rightarrow> Inl e | Inr others \<Rightarrow> Inr (ks @ others))"

text \<open>\<^verbatim>\<open>Array.from(new Set(xs))\<close>: a set keeps the order of first insertion.\<close>

definition set_add :: "string list \<Rightarrow> string \<Rightarrow> string list" where
  "set_add seen x = (if x \<in> set seen then seen else seen @ [x])"

definition from_set :: "string list \<Rightarrow> string list" where
  "from_set xs = foldl set_add [] xs"

definition dquote :: char where
  "dquote = CHR 0x22"

text \<open>\<^verbatim>\<open>.replace(/"/g, '""')\<close>\<close>

definition escape :: "string \<Rightarrow> string" where
  "escape s = concat (map (\<lambda>ch. if ch = dquote then [dquote, dquote] else [ch]) s)"

text \<open>\<^verbatim>\<open>xs.map(f)\<close> for a callback that may throw: the elements are visited from left
  to right and the first exception ends the loop.\<close>

fun array_map :: "('a \<Rightarrow> thrown + 'b) \<Rightarrow> 'a list \<Rightarrow> thrown + 'b list" where
  "array_map f [] = Inr []"
| "array_map f (x # xs) =
     (case f x of Inl e \<Rightarrow> Inl e | Inr y \<Rightarrow>
      case array_map f xs of Inl e \<Rightarrow> Inl e | Inr ys \<Rightarrow> Inr (y # ys))"

text \<open>
  One field of a data row, lines 40 to 42. \<^verbatim>\<open>row[header]\<close> is a value of the data or
  an inherited member; \<^verbatim>\<open>'' + (val ?? '')\<close> is its text.
\<close>

definition cell :: "runtime \<Rightarrow> jsval \<Rightarrow> string \<Rightarrow> thrown + string" where
  "cell rt row header =
     (case get_member rt row header of Inl e \<Rightarrow> Inl e | Inr val \<Rightarrow>
      case (case val of Own v \<Rightarrow> to_string rt (coalesce v (JStr []))
                      | Inherited t \<Rightarrow> Inr t) of Inl e \<Rightarrow> Inl e | Inr text \<Rightarrow>
      let escaped = escape text
      in Inr ([dquote] @ escaped @ [dquote]))"

definition csvRows :: "runtime \<Rightarrow> string list \<Rightarrow> jsval list \<Rightarrow> thrown + string list" where
  "csvRows rt headers claims =
     (case array_map
             (\<lambda>row. case array_map (cell rt row) headers of Inl e \<Rightarrow> Inl e
                     | Inr cells \<Rightarrow> Inr (join '','' cells)) claims of
        Inl e \<Rightarrow> Inl e
      | Inr lines \<Rightarrow> Inr (join '','' headers # lines))"

text \<open>
  What a click downloads: the merged array (before \<^verbatim>\<open>JSON.stringify\<close>, which is not
  modelled) or the text of the CSV file; \<open>None\<close> when the handler returns without a
  download; on the left, what the handler throws.
\<close>

datatype download = JsonFile "jsval list" | CsvFile string

definition handleDownloadJson :: "DocumentFile list \<Rightarrow> thrown + download option" where
  "handleDownloadJson docs = Inr (Some (JsonFile (getAllClaims docs)))"

definition handleDownloadCsv :: "runtime \<Rightarrow> DocumentFile list \<Rightarrow> thrown + download option" where
  "handleDownloadCsv rt docs =
     (let claims = getAllClaims docs in
      if length claims = 0 then Inr None
      else case all_keys rt claims of Inl e \<Rightarrow> Inl e | Inr ks \<Rightarrow>
        case csvRows rt (from_set ks) claims of Inl e \<Rightarrow> Inl e | Inr lines \<Rightarrow>
        Inr (Some (CsvFile (join [CHR 0x0A] lines))))"

datatype button = MergeToJson | MergeToCsv

text \<open>The component: \<open>None\<close> when it renders nothing, else what each button does.\<close>

definition MergeJsonButton ::
  "runtime \<Rightarrow> DocumentFile list \<Rightarrow> (button \<Rightarrow> thrown + download option) option" where
  "MergeJsonButton rt docs =
     (if length (completedDocs docs) < 2 then None
      else Some (\<lambda>b. case b of MergeToJson \<Rightarrow> handleDownloadJson docs
                              | MergeToCsv \<Rightarrow> handleDownloadCsv rt docs))"

section \<open>Inputs of the scenarios\<close>

text \<open>
  An engine for the examples, with the error texts of V8 and the members of
  \<^verbatim>\<open>Object.prototype\<close>, which every parsed JSON object inherits. The examples
  convert no string to a number, print no number that is not a small integer and read no
  inherited member of a value that is not an object.
\<close>

definition object_prototype :: "(string \<times> string) list" where
  "object_prototype =
     [(''constructor'', ''function Object() { [native code] }''),
      (''__defineGetter__'', ''function __defineGetter__() { [native code] }''),
      (''__defineSetter__'', ''function __defineSetter__() { [native code] }''),
      (''hasOwnProperty'', ''function hasOwnProperty() { [native code] }''),
      (''__lookupGetter__'', ''function __lookupGetter__() { [native code] }''),
      (''__lookupSetter__'', ''function __lookupSetter__() { [native code] }''),
      (''isPrototypeOf'', ''function isPrototypeOf() { [native code] }''),
      (''propertyIsEnumerable'', ''function propertyIsEnumerable() { [native code] }''),
      (''toString'', ''function toString() { [native code] }''),
      (''valueOf'', ''function valueOf() { [native code] }''),
      (''__proto__'', ''[object Object]''),
      (''toLocaleString'', ''function toLocaleString() { [native code] }'')]"

definition sample_runtime :: runtime where
  "sample_runtime =
     \<lparr>number_text = (\<lambda>r. ''NaN''),
      string_number = (\<lambda>s. NaN),
      type_error_text = (\<lambda>v k. ''Cannot read properties of '' @ (if v = JNull then ''null'' else ''undefined'')
                                 @ '' (reading '' @ [CHR 0x27] @ k @ [CHR 0x27] @ '')''),
      keys_error_text = (\<lambda>v. ''Cannot convert undefined or null to object''),
      primitive_error_text = ''Cannot convert object to primitive value'',
      inherited_text = (\<lambda>v k. case v of JObj kvs \<Rightarrow> map_of object_prototype k | _ \<Rightarrow> None)\<rparr>"

text \<open>The doubles that the JSON texts \<^verbatim>\<open>0.9\<close> and \<^verbatim>\<open>0.285\<close> denote.\<close>

definition double_0_9 :: rat where
  "double_0_9 = 8106479329266893 / 2 ^ 53"

definition double_0_285 :: rat where
  "double_0_285 = 5134103575202365 / 2 ^ 54"

definition sample_file :: File where
  "sample_file = \<lparr>file_name = ''loss_run.pdf'', file_size = 2048, file_bytes = [37, 80, 68, 70]\<rparr>"

text \<open>\<^verbatim>\<open>{success:true, data:{extracted_schema:{claims:[{claim_number:"381987"}]},
  summary:{claims_count:1, avg_confidence:0.9}}}\<close>\<close>

definition scenario_schema :: jsval where
  "scenario_schema = JObj [(''claims'', JArr [JObj [(''claim_number'', JStr ''381987'')]])]"

definition scenario_response :: jsval where
  "scenario_response =
     JObj [(''success'', JBool True),
           (''data'', JObj [(''extracted_schema'', scenario_schema),
                            (''summary'', JObj [(''claims_count'', JNum 1),
                                                (''avg_confidence'', JNum double_0_9)])])]"

text \<open>\<^verbatim>\<open>{success:false, error:"bad pdf"}\<close>\<close>

definition bad_pdf_response :: jsval where
  "bad_pdf_response = JObj [(''success'', JBool False), (''error'', JStr ''bad pdf'')]"

text \<open>\<^verbatim>\<open>{extracted_schema:{claims:[]}, summary:{avg_confidence:0}}\<close>\<close>

definition zero_confidence_data :: jsval where
  "zero_confidence_data =
     JObj [(''extracted_schema'', JObj [(''claims'', JArr [])]),
           (''summary'', JObj [(''avg_confidence'', JNum 0)])]"

text \<open>\<^verbatim>\<open>{extracted_schema:{claims:[]}, summary:{avg_confidence:0.285}}\<close>\<close>

definition low_confidence_data :: jsval where
  "low_confidence_data =
     JObj [(''extracted_schema'', JObj [(''claims'', JArr [])]),
           (''summary'', JObj [(''avg_confidence'', JNum double_0_285)])]"

text \<open>\<^verbatim>\<open>{success:1, data:{extracted_schema:{claims:[]}}}\<close>\<close>

definition truthy_flag_response :: jsval where
  "truthy_flag_response =
     JObj [(''success'', JNum 1),
           (''data'', JObj [(''extracted_schema'', JObj [(''claims'', JArr [])])])]"



text \<open>Two completed documents, with claims \<^verbatim>\<open>[{a:1}]\<close> and \<^verbatim>\<open>[{b:2}]\<close>.\<close>

definition completed_doc :: "string \<Rightarrow> jsval list \<Rightarrow> DocumentFile" where
  "completed_doc suffix claims =
     (new_doc (sample_file, 1700000000000, suffix))
       \<lparr>stage := complete, result := JObj [(''claims'', JArr claims)]\<rparr>"

definition doc_a :: DocumentFile where
  "doc_a = completed_doc ''k3x9qa'' [JObj [(''a'', JNum 1)]]"

definition doc_b :: DocumentFile where
  "doc_b = completed_doc ''p07zzm'' [JObj [(''b'', JNum 2)]]"


definition quoted_note :: string where
  "quoted_note = ''say '' @ [CHR 0x22] @ ''hi'' @ [CHR 0x22]"

definition doc_q :: DocumentFile where
  "doc_q = completed_doc ''q11aab'' [JObj [(''note'', JStr quoted_note)]]"

definition scenario_metadata :: DocumentMetadata where
  "scenario_metadata =
     \<lparr>insurer = JStr ''Unknown'', format = JStr ''standard'', confidence = Num 90,
      claims_count = JNum 1\<rparr>"

text \<open>One file uploaded, its request outstanding; and a second file added meanwhile.\<close>

definition busy_state :: sys where
  "busy_state =
     run sample_runtime [AddFiles [(sample_file, 1700000000000, ''k3x9qa'')] 1700000000001] init"

definition second_batch :: "(File \<times> nat \<times> string) list" where
  "second_batch = [(sample_file, 1700000002000, ''p07zzm'')]"

text \<open>One file uploaded and its response arrived, the body outstanding.\<close>

definition awaiting_body_run :: "event list" where
  "awaiting_body_run =
     [AddFiles [(sample_file, 1700000000000, ''k3x9qa'')] 1700000000001,
      FetchSettles 0 (Response True ''OK'') 1700000000800]"

definition draining_run :: "event list" where
  "draining_run =
     [AddFiles [(sample_file, 1700000000000, ''k3x9qa'')] 1700000000001,
      AddFiles second_batch 1700000002001]"

text \<open>A batch of two files, and a batch whose two files drew the same clock reading and the
  same random suffix.\<close>

definition two_files :: "(File \<times> nat \<times> string) list" where
  "two_files = [(sample_file, 1700000000000, ''k3x9qa''), (sample_file, 1700000000000, ''p07zzm'')]"

definition repeated_draw :: "(File \<times> nat \<times> string) list" where
  "repeated_draw = [(sample_file, 1700000000000, ''k3x9qa''), (sample_file, 1700000000000, ''k3x9qa'')]"

text \<open>One file uploaded and answered with a status that is not \<^verbatim>\<open>ok\<close>; then the timer
  of its simulator fires, two files with one repeated draw are added and the first of them
  is answered the same way. And the batch with the repeated draw, its first file answered
  that way.\<close>

definition failed_run :: "event list" where
  "failed_run =
     [AddFiles [(sample_file, 1700000000000, ''k3x9qa'')] 1700000000001,
      FetchSettles 0 (Response False ''Internal Server Error'') 1700000000500]"

definition later_repeated_draw :: "(File \<times> nat \<times> string) list" where
  "later_repeated_draw =
     [(sample_file, 1700000002000, ''p07zzm''), (sample_file, 1700000002000, ''p07zzm'')]"

definition later_events :: "event list" where
  "later_events =
     [TimerFires 0, AddFiles later_repeated_draw 1700000002001,
      FetchSettles 1 (Response False ''Internal Server Error'') 1700000002500]"

definition repeated_run :: "event list" where
  "repeated_run =
     [AddFiles repeated_draw 1700000000001,
      FetchSettles 0 (Response False ''Internal Server Error'') 1700000000500]"

section \<open>Notions used in the statements\<close>

text \<open>The registry after the records with identifier \<open>i\<close> were marked failed with the
  message \<open>m\<close>; no other field changes.\<close>

definition marked_error :: "string \<Rightarrow> string \<Rightarrow> DocumentFile list \<Rightarrow> DocumentFile list" where
  "marked_error i m ds =
     map (\<lambda>d. if doc_id d = i
               then d\<lparr>stage := error, stageMessage := ''Error'', error_text := Some m\<rparr>
               else d) ds"

text \<open>The confidence expression of line 104, on the value of the average confidence.\<close>

definition confidence_of :: "runtime \<Rightarrow> jsval \<Rightarrow> thrown + jsnum" where
  "confidence_of rt ac =
     (if truthy ac
      then (case to_number rt ac of Inl e \<Rightarrow> Inl e | Inr n \<Rightarrow> Inr (math_round (times100 n)))
      else Inr (Num 95))"

text \<open>What line 94 throws for a body whose success flag is not truthy: an error with the text
  of the error field, or of the fallback; or what the conversion of that field to text
  raises.\<close>

definition backend_error :: "runtime \<Rightarrow> jsval \<Rightarrow> thrown" where
  "backend_error rt json =
     (case to_string rt (or_else (own json ''error'') (JStr ''Unknown backend error'')) of
        Inl e \<Rightarrow> e
      | Inr message \<Rightarrow> ErrorInstance message)"

text \<open>The message the \<^verbatim>\<open>catch\<close> block of \<^verbatim>\<open>processDocument\<close> records for a
  thrown value.\<close>

definition message_of :: "thrown \<Rightarrow> string" where
  "message_of e = (case e of ErrorInstance m \<Rightarrow> m | NonError \<Rightarrow> ''Processing failed'')"



text \<open>
  The export as the specification words it: the documents in stage \<open>complete\<close> with a
  result that is not \<^verbatim>\<open>null\<close>, the claims list of such a document, and the shape
  \<^verbatim>\<open>ExtractionResult | null\<close> the interface gives a result.
\<close>

definition complete_with_result :: "DocumentFile list \<Rightarrow> DocumentFile list" where
  "complete_with_result docs = filter (\<lambda>d. stage d = complete \<and> result d \<noteq> JNull) docs"

definition claims_list :: "DocumentFile \<Rightarrow> jsval list" where
  "claims_list d =
     (case result d of
        JObj kvs \<Rightarrow> (case lookup kvs ''claims'' of JArr xs \<Rightarrow> xs | _ \<Rightarrow> [])
      | _ \<Rightarrow> [])"

definition result_shaped :: "DocumentFile \<Rightarrow> bool" where
  "result_shaped d =
     (case result d of
        JNull \<Rightarrow> True
      | JObj kvs \<Rightarrow> (case lookup kvs ''claims'' of JArr xs \<Rightarrow> True | _ \<Rightarrow> False)
      | _ \<Rightarrow> False)"

text \<open>The simulator writes at step \<open>k\<close>: the script has the step and the flag is set.\<close>

definition sim_writes :: "nat \<Rightarrow> nat \<Rightarrow> sys \<Rightarrow> bool" where
  "sim_writes c k s = (k < length STAGE_FLOW \<and> isSimulationRunning (calls s ! c))"

text \<open>The entry of an invocation just started for an item of the pending list.\<close>

definition new_call :: "string \<times> File \<Rightarrow> call" where
  "new_call item = \<lparr>c_id = fst item, c_file = snd item, isSimulationRunning = True,
                     c_main = AwaitFetch, c_sim = Sleeping 0\<rparr>"

text \<open>The state once the invocation \<open>c\<close> has made its final write \<open>u\<close> and returned.\<close>

definition finish :: "nat \<Rightarrow> updates \<Rightarrow> sys \<Rightarrow> sys" where
  "finish c u s =
     s\<lparr>calls := (calls s)[c := (calls s ! c)\<lparr>isSimulationRunning := False, c_main := Returned\<rparr>],
       documents := updateDoc (c_id (calls s ! c)) u (documents s),
       writes := writes s @ [(Main c, c_id (calls s ! c), u)]\<rparr>"

text \<open>What a \<^verbatim>\<open>fetch\<close> that does not lead to a body throws.\<close>

definition fetch_error :: "fetch_outcome \<Rightarrow> thrown" where
  "fetch_error out =
     (case out of FetchRejected e \<Rightarrow> e
      | Response ok statusText \<Rightarrow> ErrorInstance (''Server error: '' @ statusText))"

text \<open>The final write once the body has settled.\<close>

definition settle_updates :: "runtime \<Rightarrow> body_outcome \<Rightarrow> nat \<Rightarrow> updates" where
  "settle_updates rt out now =
     (case (case out of BodyRejected e \<Rightarrow> Inl e | Body json \<Rightarrow> after_json rt json now) of
        Inl e \<Rightarrow> catch_updates e
      | Inr u \<Rightarrow> u)"

text \<open>An item of the pending list, as a call and as a document carry it.\<close>

definition call_item :: "call \<Rightarrow> string \<times> File" where
  "call_item x = (c_id x, c_file x)"

definition doc_item :: "DocumentFile \<Rightarrow> string \<times> File" where
  "doc_item d = (doc_id d, doc_file d)"

text \<open>The items the events of a run add, in order.\<close>

fun added :: "event list \<Rightarrow> (string \<times> File) list" where
  "added [] = []"
| "added (AddFiles files now # evs) = map doc_item (newDocs files) @ added evs"
| "added (ev # evs) = added evs"

text \<open>The invocations whose main body has not returned.\<close>

definition in_flight :: "sys \<Rightarrow> call list" where
  "in_flight s = filter (\<lambda>x. c_main x \<noteq> Returned) (calls s)"

text \<open>A write that sets a terminal stage.\<close>

definition terminal :: "ProcessingStage \<Rightarrow> bool" where
  "terminal st = (st = complete \<or> st = error)"

definition final_write :: "writer \<times> string \<times> updates \<Rightarrow> nat \<Rightarrow> bool" where
  "final_write e c =
     (fst e = Main c \<and> (case u_stage (snd (snd e)) of None \<Rightarrow> False | Some st \<Rightarrow> terminal st))"

definition by_call :: "writer \<times> string \<times> updates \<Rightarrow> nat \<Rightarrow> bool" where
  "by_call e c = (fst e = Main c \<or> fst e = Simulator c)"

text \<open>In a log of writes: after the final write of an invocation, neither its simulator
  nor its main body writes again.\<close>

fun quiet_after_final :: "(writer \<times> string \<times> updates) list \<Rightarrow> bool" where
  "quiet_after_final [] = True"
| "quiet_after_final (e # es) =
     ((case fst e of
         Main c \<Rightarrow> final_write e c \<longrightarrow> (\<forall>e' \<in> set es. \<not> by_call e' c)
       | _ \<Rightarrow> True)
      \<and> quiet_after_final es)"

text \<open>
  The invariant of the queue: only the last invocation can be unreturned; the worker flag is
  set exactly while it is; nothing is pending while no worker runs; and the simulation flag
  of an invocation is set only while its \<^verbatim>\<open>fetch\<close> is outstanding.
\<close>

definition single_flight :: "sys \<Rightarrow> bool" where
  "single_flight s =
     ((\<forall>c. Suc c < length (calls s) \<longrightarrow> c_main (calls s ! c) = Returned)
      \<and> (isProcessing s \<longleftrightarrow> (\<exists>c < length (calls s). c_main (calls s ! c) \<noteq> Returned))
      \<and> (\<not> isProcessing s \<longrightarrow> processingQueue s = [])
      \<and> (\<forall>c < length (calls s). isSimulationRunning (calls s ! c)
            \<longrightarrow> c_main (calls s ! c) = AwaitFetch))"

text \<open>An update that leaves the identifier and the file of a record alone.\<close>

definition keeps_identity :: "updates \<Rightarrow> bool" where
  "keeps_identity u = (u_id u = None \<and> u_file u = None)"

text \<open>The positions of the other records of a registry that carry the identifier of the
  record at position \<open>k\<close>; the identifier of that record is unshared when there is none.\<close>

definition sharers :: "DocumentFile list \<Rightarrow> nat \<Rightarrow> nat list" where
  "sharers ds k = filter (\<lambda>j. j \<noteq> k \<and> doc_id (ds ! j) = doc_id (ds ! k)) [0..<length ds]"

definition unshared :: "DocumentFile list \<Rightarrow> nat \<Rightarrow> bool" where
  "unshared ds k = (sharers ds k = [])"

text \<open>A record that an operation has settled: it is in a terminal stage or has a result.\<close>

definition settled :: "DocumentFile \<Rightarrow> bool" where
  "settled d = (terminal (stage d) \<or> result d \<noteq> JNull)"

text \<open>A record marked failed with the message \<open>m\<close>.\<close>

definition failed_with :: "string \<Rightarrow> DocumentFile \<Rightarrow> DocumentFile" where
  "failed_with m d = d\<lparr>stage := error, stageMessage := ''Error'', error_text := Some m\<rparr>"

text \<open>
  Three more invariants. The invocations started and the pending items are the documents of
  the registry, in order. A settled record carries the identifier of an invocation that has
  returned. And in the log of writes, every write of an invocation is by one that exists,
  every final write is by one that has returned, and nothing follows a final write.
\<close>

definition items_match :: "sys \<Rightarrow> bool" where
  "items_match s = (map call_item (calls s) @ processingQueue s = map doc_item (documents s))"

definition terminal_owned :: "sys \<Rightarrow> bool" where
  "terminal_owned s =
     (\<forall>d \<in> set (documents s). settled d \<longrightarrow>
        (\<exists>c < length (calls s). c_main (calls s ! c) = Returned \<and> c_id (calls s ! c) = doc_id d))"

definition log_ok :: "sys \<Rightarrow> bool" where
  "log_ok s =
     (quiet_after_final (writes s)
      \<and> (\<forall>e \<in> set (writes s). \<forall>c. by_call e c \<longrightarrow> c < length (calls s))
      \<and> (\<forall>e \<in> set (writes s). \<forall>c. final_write e c \<longrightarrow> c_main (calls s ! c) = Returned))"

text \<open>From one list of invocations to a later one, those that had returned are still there,
  returned, with their identifiers.\<close>

definition returned_kept :: "call list \<Rightarrow> call list \<Rightarrow> bool" where
  "returned_kept cs cs' =
     (\<forall>c < length cs. c_main (cs ! c) = Returned \<longrightarrow>
        c < length cs' \<and> c_main (cs' ! c) = Returned \<and> c_id (cs' ! c) = c_id (cs ! c))"

text \<open>What a write of the log did: who wrote, to which identifier, which stage.\<close>

definition summary :: "writer \<times> string \<times> updates \<Rightarrow> writer \<times> string \<times> ProcessingStage option" where
  "summary e = (fst e, fst (snd e), u_stage (snd (snd e)))"

section \<open>Properties of the registry update\<close>

lemma updateDoc_length: "length (updateDoc i u ds) = length ds"
  by (simp add: updateDoc_def)

lemma updateDoc_nth:
  "k < length ds \<Longrightarrow> updateDoc i u ds ! k = (if doc_id (ds ! k) = i then spread (ds ! k) u else ds ! k)"
  by (simp add: updateDoc_def)

lemma updateDoc_absent: "i \<notin> doc_id ` set ds \<Longrightarrow> updateDoc i u ds = ds"
  by (induction ds) (auto simp: updateDoc_def)

text \<open>
  C9. \<open>updateDoc i u\<close> keeps the length and the order of the registry: the record at each
  position is the old record at that position, merged with the given fields when its
  identifier is \<open>i\<close> and untouched otherwise. When no record has the identifier the registry
  is unchanged.
\<close>

theorem updateDoc_frame:
  "length (updateDoc i u ds) = length ds
   \<and> (\<forall>k < length ds. updateDoc i u ds ! k =
         (if doc_id (ds ! k) = i then spread (ds ! k) u else ds ! k))
   \<and> (i \<notin> doc_id ` set ds \<longrightarrow> updateDoc i u ds = ds)"
  by (simp add: updateDoc_length updateDoc_nth updateDoc_absent)

theorem updateDoc_frame_witness:
  "length (updateDoc (doc_id doc_a) (catch_updates NonError) [doc_a, doc_b]) = 2
   \<and> updateDoc (doc_id doc_a) (catch_updates NonError) [doc_a, doc_b] ! 0
       = spread doc_a (catch_updates NonError)
   \<and> updateDoc (doc_id doc_a) (catch_updates NonError) [doc_a, doc_b] ! 1 = doc_b
   \<and> updateDoc ''none'' (catch_updates NonError) [doc_a, doc_b] = [doc_a, doc_b]"
  using updateDoc_frame [of "doc_id doc_a" "catch_updates NonError" "[doc_a, doc_b]"]
        updateDoc_frame [of "''none''" "catch_updates NonError" "[doc_a, doc_b]"]
  by (simp add: doc_a_def doc_b_def completed_doc_def new_doc_def make_id_def)

section \<open>Properties of the double arithmetic\<close>

lemma find_shift_unique:
  "j \<le> k \<Longrightarrow> k \<le> j + n \<Longrightarrow> y < 2 ^ (53 + k) \<Longrightarrow> (\<forall>i. j \<le> i \<and> i < k \<longrightarrow> 2 ^ (53 + i) \<le> y)
   \<Longrightarrow> find_shift n j y = k"
proof (induction n arbitrary: j)
  case 0
  then show ?case by simp
next
  case (Suc n)
  show ?case
  proof (cases "j = k")
    case True
    with Suc.prems show ?thesis by simp
  next
    case False
    with Suc.prems have lt: "j < k" by simp
    with Suc.prems(4) have "2 ^ (53 + j) \<le> y" by simp
    then have "\<not> y < 2 ^ (53 + j)" by simp
    moreover have "find_shift n (Suc j) y = k"
      using Suc.prems lt by (intro Suc.IH) auto
    ultimately show ?thesis by simp
  qed
qed

lemma shift_eq:
  assumes "y < 2 ^ (53 + k)" "k = 0 \<or> 2 ^ (52 + k) \<le> y" "k \<le> 2046"
  shows "find_shift 2046 0 y = k"
proof (rule find_shift_unique)
  show "\<forall>i. 0 \<le> i \<and> i < k \<longrightarrow> 2 ^ (53 + i) \<le> y"
  proof (intro allI impI)
    fix i assume i: "0 \<le> i \<and> i < k"
    then have "k \<noteq> 0" by simp
    with assms(2) have b: "(2::rat) ^ (52 + k) \<le> y" by simp
    from i have "53 + i \<le> 52 + k" by simp
    then have "(2::rat) ^ (53 + i) \<le> 2 ^ (52 + k)"
      by (rule power_increasing) simp
    from this b show "2 ^ (53 + i) \<le> y" by (rule order_trans)
  qed
  show "0 \<le> k" by simp
  show "k \<le> 0 + 2046" using assms(3) by simp
  show "y < 2 ^ (53 + k)" by (rule assms(1))
qed

lemma round_half_even_near:
  assumes "of_int m - 1 / 2 < r" "r < of_int m + 1 / 2"
  shows "round_half_even r = m"
proof (cases "of_int m \<le> r")
  case True
  with assms(2) have "\<lfloor>r\<rfloor> = m" by (simp add: floor_eq_iff)
  with assms(2) show ?thesis by (simp add: round_half_even_def Let_def)
next
  case False
  with assms(1) have "\<lfloor>r\<rfloor> = m - 1" by (simp add: floor_eq_iff)
  with assms(1) show ?thesis by (simp add: round_half_even_def Let_def)
qed

text \<open>
  The double nearest to \<open>x\<close> is \<open>m\<close> units of \<open>2\<^sup>k\<^sup>-\<^sup>1\<^sup>0\<^sup>7\<^sup>4\<close> when \<open>k\<close> is the exponent of
  \<open>x\<close> and \<open>m\<close> is strictly the nearest integer to the scaled magnitude.
\<close>

lemma to_double_near:
  assumes "\<bar>x\<bar> * 2 ^ 1074 < 2 ^ (53 + k)" "k = 0 \<or> 2 ^ (52 + k) \<le> \<bar>x\<bar> * 2 ^ 1074" "k \<le> 2046"
    and "of_int m - 1 / 2 < \<bar>x\<bar> * 2 ^ 1074 / 2 ^ k" "\<bar>x\<bar> * 2 ^ 1074 / 2 ^ k < of_int m + 1 / 2"
    and "of_int m * 2 ^ k < (2::rat) ^ 2098"
  shows "to_double x = Num (sgn x * (of_int m * 2 ^ k) / 2 ^ 1074)"
proof -
  from assms(6) have "\<not> (2::rat) ^ 2098 \<le> of_int m * 2 ^ k"
    by (simp only: not_le)
  then show ?thesis
    unfolding to_double_def Let_def shift_eq [OF assms(1,2,3)] round_half_even_near [OF assms(4,5)]
    by (simp only: if_False)
qed

lemma round_half_even_ge: "of_int n \<le> r \<Longrightarrow> n \<le> round_half_even r"
proof -
  assume "of_int n \<le> r"
  then have "n \<le> \<lfloor>r\<rfloor>" by (simp add: le_floor_iff)
  then show ?thesis by (simp add: round_half_even_def Let_def)
qed

lemma find_shift_last:
  "(\<forall>i. j \<le> i \<and> i < j + n \<longrightarrow> 2 ^ (53 + i) \<le> y) \<Longrightarrow> find_shift n j y = j + n"
proof (induction n arbitrary: j)
  case 0
  show ?case by simp
next
  case (Suc n)
  from Suc.prems have "2 ^ (53 + j) \<le> y" by simp
  then have "\<not> y < 2 ^ (53 + j)" by simp
  moreover have "find_shift n (Suc j) y = Suc j + n"
    using Suc.prems by (intro Suc.IH) auto
  ultimately show ?case by simp
qed

text \<open>A product of magnitude \<open>2\<^sup>1\<^sup>0\<^sup>2\<^sup>4\<close> or more overflows to an infinity.\<close>

lemma to_double_overflow:
  assumes "(2::rat) ^ 2098 \<le> \<bar>x\<bar> * 2 ^ 1074"
  shows "to_double x = (if x < 0 then NegInf else PosInf)"
proof -
  let ?y = "\<bar>x\<bar> * 2 ^ 1074"
  have "\<forall>i. 0 \<le> i \<and> i < 0 + 2046 \<longrightarrow> 2 ^ (53 + i) \<le> ?y"
  proof (intro allI impI)
    fix i :: nat assume "0 \<le> i \<and> i < 0 + 2046"
    then have "53 + i \<le> 2098" by simp
    then have "(2::rat) ^ (53 + i) \<le> 2 ^ 2098"
      by (rule power_increasing) simp
    from this assms show "2 ^ (53 + i) \<le> ?y" by (rule order_trans)
  qed
  then have k: "find_shift 2046 0 ?y = 2046"
    using find_shift_last [of 0 2046 ?y] by simp
  have p: "(2::rat) ^ 2098 = of_int (2 ^ 52) * 2 ^ 2046"
    by (simp add: power_add [symmetric])
  with assms have "of_int (2 ^ 52) \<le> ?y / 2 ^ 2046"
    by (simp add: le_divide_eq)
  then have "(2::int) ^ 52 \<le> round_half_even (?y / 2 ^ 2046)"
    by (rule round_half_even_ge)
  then have "(of_int (2 ^ 52) :: rat) \<le> of_int (round_half_even (?y / 2 ^ 2046))"
    by (simp only: of_int_le_iff)
  then have "(of_int (2 ^ 52) :: rat) * 2 ^ 2046 \<le> of_int (round_half_even (?y / 2 ^ 2046)) * 2 ^ 2046"
    by (rule mult_right_mono) simp
  with p have "(2::rat) ^ 2098 \<le> of_int (round_half_even (?y / 2 ^ 2046)) * 2 ^ 2046"
    by (simp only:)
  then show ?thesis
    unfolding to_double_def Let_def k by (simp only: if_True)
qed

lemma to_double_zero: "to_double 0 = Num 0"
  by (subst to_double_near [where k = 0 and m = 0]) simp_all

lemma double_0_9_nearest: "to_double (9 / 10) = Num double_0_9"
  unfolding double_0_9_def
  by (subst to_double_near [where k = 1021 and m = 8106479329266893]) simp_all

lemma double_0_285_nearest: "to_double (285 / 1000) = Num double_0_285"
  unfolding double_0_285_def
  by (subst to_double_near [where k = 1020 and m = 5134103575202365]) simp_all

lemma times100_0_9: "to_double (double_0_9 * 100) = Num 90"
  unfolding double_0_9_def
  by (subst to_double_near [where k = 1028 and m = 6333186975989760]) simp_all

lemma times100_0_285: "to_double (double_0_285 * 100) = Num (8022036836253695 / 2 ^ 48)"
  unfolding double_0_285_def
  by (subst to_double_near [where k = 1026 and m = 8022036836253695]) simp_all

lemma round_0_285: "math_round (Num (8022036836253695 / 2 ^ 48)) = Num 28"
  by (simp add: floor_eq_iff)

lemma doubles_not_zero: "double_0_9 \<noteq> 0" "double_0_285 \<noteq> 0"
  by (simp_all add: double_0_9_def double_0_285_def)

text \<open>A product beyond the range of the doubles is an infinity, and so is its rounding.\<close>

lemma times100_overflow: "times100 (Num (10 ^ 308)) = PosInf"
  by (simp add: to_double_overflow)

section \<open>Properties of the result projector\<close>

lemma own_nullish: "nullish v \<Longrightarrow> own v k = JUndef"
  by (auto simp: nullish_def)

lemma read_prop_Inr: "\<not> nullish v \<Longrightarrow> read_prop rt v k = Inr (own v k)"
  by (simp add: read_prop_def)

lemma read_prop_Inl:
  "nullish v \<Longrightarrow> read_prop rt v k = Inl (ErrorInstance (type_error_text rt v k))"
  by (simp add: read_prop_def)

lemma read_opt_own: "read_opt v k = own v k"
  by (simp add: read_opt_def own_nullish)

lemma project_nullish:
  "nullish br \<Longrightarrow> project rt br = Inl (ErrorInstance (type_error_text rt br ''extracted_schema''))"
  by (simp add: project_def read_prop_Inl)

text \<open>
  The projection of a value that is neither \<^verbatim>\<open>null\<close> nor \<^verbatim>\<open>undefined\<close>: it
  faults in the confidence expression, or else in the read of \<^verbatim>\<open>length\<close>, reached when
  the summary has no truthy \<^verbatim>\<open>claims_count\<close>.
\<close>

lemma project_eq:
  assumes "\<not> nullish br"
  shows "project rt br =
    (let schema = or_else (own br ''extracted_schema'') default_schema;
         ac = own (own br ''summary'') ''avg_confidence'';
         cc = own (own br ''summary'') ''claims_count''
     in case confidence_of rt ac of Inl e \<Rightarrow> Inl e | Inr cf \<Rightarrow>
        if \<not> truthy cc \<and> nullish (own schema ''claims'')
        then Inl (ErrorInstance (type_error_text rt (own schema ''claims'') ''length''))
        else Inr (schema,
          \<lparr>insurer = or_else (own (own br ''extraction_metadata'') ''source_file'') (JStr ''Unknown''),
           format = or_else (own (own br ''extraction_metadata'') ''method'') (JStr ''standard''),
           confidence = cf,
           claims_count = (if truthy cc then cc else own (own schema ''claims'') ''length'')\<rparr>))"
proof -
  have s: "\<not> nullish (or_else (own br ''extracted_schema'') default_schema)"
    by (auto simp: or_else_def default_schema_def nullish_def)
  have t: "truthy (own (own br ''summary'') ''avg_confidence'') \<Longrightarrow> \<not> nullish (own br ''summary'')"
    using own_nullish by fastforce
  show ?thesis
    using assms s t
    by (auto simp: project_def read_prop_Inr read_prop_Inl read_opt_own Let_def confidence_of_def
        split: sum.splits)
qed

lemma confidence_of_Inr:
  "confidence_of rt ac = Inr cf \<Longrightarrow>
   (if truthy ac then \<exists>n. to_number rt ac = Inr n \<and> cf = math_round (times100 n) else cf = Num 95)"
  by (auto simp: confidence_of_def split: if_splits sum.splits)

text \<open>
  C3, amended. Whenever the projection of \<^verbatim>\<open>json.data\<close> yields metadata, each field
  falls back on truthiness, not on presence: the insurer is the source-file field when that
  field is truthy and \<open>Unknown\<close> otherwise; the format is the method field when truthy and
  \<open>standard\<close> otherwise; the confidence is the average confidence times 100, rounded, when
  that field is truthy (for a number: when it is not zero) and 95 otherwise, the product being
  the double nearest to the exact one and the rounding to the nearest integer; the claim count
  is the summary's count when truthy and otherwise the length of the claims of the stored
  schema, which for a claims array is the number of its elements.
\<close>

theorem project_fallbacks:
  assumes "project rt br = Inr (schema, m)"
  shows "insurer m = (if truthy (own (own br ''extraction_metadata'') ''source_file'')
                      then own (own br ''extraction_metadata'') ''source_file'' else JStr ''Unknown'')
       \<and> format m = (if truthy (own (own br ''extraction_metadata'') ''method'')
                      then own (own br ''extraction_metadata'') ''method'' else JStr ''standard'')
       \<and> (if truthy (own (own br ''summary'') ''avg_confidence'')
          then \<exists>n. to_number rt (own (own br ''summary'') ''avg_confidence'') = Inr n
                   \<and> confidence m = math_round (times100 n)
          else confidence m = Num 95)
       \<and> (\<forall>r. own (own br ''summary'') ''avg_confidence'' = JNum r \<longrightarrow> r \<noteq> 0 \<longrightarrow>
              confidence m = math_round (to_double (r * 100)))
       \<and> claims_count m = (if truthy (own (own br ''summary'') ''claims_count'')
                      then own (own br ''summary'') ''claims_count''
                      else own (own schema ''claims'') ''length'')
       \<and> (\<forall>xs. \<not> truthy (own (own br ''summary'') ''claims_count'') \<longrightarrow>
              own schema ''claims'' = JArr xs \<longrightarrow> claims_count m = JNum (of_nat (length xs)))"
proof -
  have nn: "\<not> nullish br"
    using assms project_nullish [of br rt] by auto
  let ?ac = "own (own br ''summary'') ''avg_confidence''"
  let ?cc = "own (own br ''summary'') ''claims_count''"
  from assms obtain cf where cf: "confidence_of rt ?ac = Inr cf"
    unfolding project_eq [OF nn] Let_def by (auto split: sum.splits)
  from assms cf have m: "schema = or_else (own br ''extracted_schema'') default_schema"
    "insurer m = or_else (own (own br ''extraction_metadata'') ''source_file'') (JStr ''Unknown'')"
    "format m = or_else (own (own br ''extraction_metadata'') ''method'') (JStr ''standard'')"
    "confidence m = cf"
    "claims_count m = (if truthy ?cc then ?cc else own (own schema ''claims'') ''length'')"
    unfolding project_eq [OF nn] Let_def by (auto split: if_splits)
  note c = confidence_of_Inr [OF cf]
  have c1: "if truthy ?ac
          then \<exists>n. to_number rt ?ac = Inr n \<and> confidence m = math_round (times100 n)
          else confidence m = Num 95"
    using c m(4) by simp
  have c2: "\<forall>r. ?ac = JNum r \<longrightarrow> r \<noteq> 0 \<longrightarrow> confidence m = math_round (to_double (r * 100))"
    using c m(4) by auto
  have c3: "\<forall>xs. \<not> truthy ?cc \<longrightarrow> own schema ''claims'' = JArr xs \<longrightarrow>
              claims_count m = JNum (of_nat (length xs))"
    using m(5) by simp
  show ?thesis
    using m(2,3,5) c1 c2 c3 by (simp add: or_else_def)
qed

lemma project_scenario:
  "project sample_runtime (own scenario_response ''data'') = Inr (scenario_schema, scenario_metadata)"
  by (simp add: scenario_response_def scenario_schema_def scenario_metadata_def project_def
      read_prop_def nullish_def or_else_def read_opt_def default_schema_def doubles_not_zero
      times100_0_9 floor_eq_iff)

lemma project_low_confidence:
  "project sample_runtime low_confidence_data
     = Inr (JObj [(''claims'', JArr [])],
            \<lparr>insurer = JStr ''Unknown'', format = JStr ''standard'', confidence = Num 28,
             claims_count = JNum 0\<rparr>)"
  by (simp add: low_confidence_data_def project_def read_prop_def nullish_def or_else_def
      read_opt_def default_schema_def doubles_not_zero times100_0_285 floor_eq_iff)

theorem project_fallbacks_witness:
  "project sample_runtime (own scenario_response ''data'') = Inr (scenario_schema, scenario_metadata)
   \<and> insurer scenario_metadata = JStr ''Unknown''
   \<and> format scenario_metadata = JStr ''standard''
   \<and> to_double (9 / 10) = Num double_0_9
   \<and> confidence scenario_metadata = math_round (to_double (double_0_9 * 100))
   \<and> confidence scenario_metadata = Num 90
   \<and> claims_count scenario_metadata = JNum 1
   \<and> to_double (285 / 1000) = Num double_0_285
   \<and> project sample_runtime low_confidence_data
       = Inr (JObj [(''claims'', JArr [])],
              \<lparr>insurer = JStr ''Unknown'', format = JStr ''standard'', confidence = Num 28,
               claims_count = JNum 0\<rparr>)
   \<and> math_round (to_double (double_0_285 * 100)) = Num 28"
proof -
  note h = project_scenario
  note l = project_low_confidence
  have a: "own (own (own scenario_response ''data'') ''summary'') ''avg_confidence'' = JNum double_0_9"
    by (simp add: scenario_response_def)
  have b: "own (own low_confidence_data ''summary'') ''avg_confidence'' = JNum double_0_285"
    by (simp add: low_confidence_data_def)
  have c1: "confidence scenario_metadata = math_round (to_double (double_0_9 * 100))"
    using project_fallbacks [OF h] a doubles_not_zero(1) by simp
  have c2: "Num 28 = math_round (to_double (double_0_285 * 100))"
    using project_fallbacks [OF l] b doubles_not_zero(2) by simp
  have c3: "insurer scenario_metadata = JStr ''Unknown'' \<and> format scenario_metadata = JStr ''standard''
      \<and> confidence scenario_metadata = Num 90 \<and> claims_count scenario_metadata = JNum 1"
    by (simp add: scenario_metadata_def)
  show ?thesis
    using h l c1 c2 [symmetric] c3 double_0_9_nearest double_0_285_nearest by simp
qed

text \<open>
  The claim as stated fails for a reported average confidence of 0: the field is present,
  its rounded percentage is 0, and the metadata says 95.
\<close>

theorem zero_confidence_counterexample:
  "project sample_runtime zero_confidence_data
     = Inr (JObj [(''claims'', JArr [])],
            \<lparr>insurer = JStr ''Unknown'', format = JStr ''standard'', confidence = Num 95,
             claims_count = JNum 0\<rparr>)
   \<and> own (own zero_confidence_data ''summary'') ''avg_confidence'' = JNum 0
   \<and> to_number sample_runtime (JNum 0) = Inr (Num 0)
   \<and> math_round (times100 (Num 0)) = Num 0"
  by (simp add: zero_confidence_data_def project_def read_prop_def nullish_def
        or_else_def read_opt_def default_schema_def to_double_zero floor_eq_iff)

section \<open>Properties of the upload and extract operation\<close>

lemma documents_set_call: "documents (set_call c f s) = documents s"
  by (simp add: set_call_def)

lemma documents_write_doc: "documents (write_doc w i u s) = updateDoc i u (documents s)"
  by (simp add: write_doc_def)

lemma calls_write_doc: "calls (write_doc w i u s) = calls s"
  by (simp add: write_doc_def)

lemma c_id_set_call_flag:
  "c_id (calls (set_call c (\<lambda>x. x\<lparr>isSimulationRunning := b\<rparr>) s) ! c) = c_id (calls s ! c)"
  by (cases "c < length (calls s)") (simp_all add: set_call_def list_update_beyond)

lemma catch_block_result:
  "fst (catch_block c e s) = None
   \<and> documents (snd (catch_block c e s)) = updateDoc (c_id (calls s ! c)) (catch_updates e) (documents s)"
  by (simp add: catch_block_def Let_def documents_set_call documents_write_doc c_id_set_call_flag)

lemma updateDoc_catch:
  "updateDoc i (catch_updates e) ds =
     map (\<lambda>d. if doc_id d = i
               then d\<lparr>stage := error, stageMessage := ''Error'',
                       error_text := Some (case e of ErrorInstance m \<Rightarrow> m | NonError \<Rightarrow> ''Processing failed'')\<rparr>
               else d) ds"
  by (simp add: updateDoc_def spread_def catch_updates_def no_updates_def)

lemma after_json_failure:
  "\<not> nullish json \<Longrightarrow> \<not> truthy (own json ''success'') \<Longrightarrow>
   after_json rt json now = Inl (backend_error rt json)"
  by (simp add: after_json_def read_prop_Inr backend_error_def split: sum.splits)

lemma after_json_nullish:
  "nullish json \<Longrightarrow> after_json rt json now = Inl (ErrorInstance (type_error_text rt json ''success''))"
  by (simp add: after_json_def read_prop_Inl)


lemma on_json_Inl:
  "(case out of BodyRejected e \<Rightarrow> Inl e | Body json \<Rightarrow> after_json rt json now) = Inl e
   \<Longrightarrow> on_json rt c out now s = catch_block c e s"
  by (simp add: on_json_def)


lemmas run_defs = step_def addFiles_def newDocs_def init_def processQueue_def processQueue_loop_def
      processDocument_start_def runSimulation_def step_updates_def start_updates_def
      STAGE_FLOW_def write_doc_def set_call_def
      updateDoc_def spread_def no_updates_def new_doc_def Let_def on_fetch_def on_json_def
      worker_resume_def after_json_def read_prop_def catch_block_def catch_updates_def
      nullish_def project_def or_else_def read_opt_def default_schema_def






subsection \<open>Failures\<close>

lemma updateDoc_marked:
  "updateDoc i (catch_updates e) ds = marked_error i (message_of e) ds"
  by (simp add: updateDoc_catch marked_error_def message_of_def)

lemma marked_error_nth:
  "k < length ds \<Longrightarrow> doc_id (ds ! k) = i \<Longrightarrow>
   stage (marked_error i m ds ! k) = error \<and> error_text (marked_error i m ds ! k) = Some m
   \<and> result (marked_error i m ds ! k) = result (ds ! k)"
  by (simp add: marked_error_def)

lemma marked_error_result: "map result (marked_error i m ds) = map result ds"
  by (simp add: marked_error_def)

lemma on_fetch_rejected:
  "on_fetch c (FetchRejected e) s = Inl (catch_block c e s)"
  by (simp add: on_fetch_def)

lemma on_fetch_not_ok:
  "\<exists>r. on_fetch c (Response False st) s = Inl r \<and> fst r = None
       \<and> documents (snd r) = marked_error (c_id (calls s ! c)) (''Server error: '' @ st) (documents s)"
  using catch_block_result [of c "ErrorInstance (''Server error: '' @ st)"
          "set_call c (\<lambda>x. x\<lparr>isSimulationRunning := False\<rparr>) s"]
  by (simp add: on_fetch_def Let_def updateDoc_marked message_of_def c_id_set_call_flag documents_set_call)

lemma on_json_never_throws: "fst (on_json rt c out now s) = None"
  by (simp add: on_json_def catch_block_def Let_def split: sum.splits)

lemma on_fetch_never_throws: "on_fetch c out s = Inl r \<Longrightarrow> fst r = None"
  by (auto simp: on_fetch_def catch_block_def Let_def split: fetch_outcome.splits if_splits)

lemma on_json_rejected:
  "documents (snd (on_json rt c (BodyRejected e) now s))
     = marked_error (c_id (calls s ! c)) (message_of e) (documents s)"
  using catch_block_result [of c e s] by (simp add: on_json_def updateDoc_marked)

lemma on_json_not_success:
  assumes "\<not> nullish json" "\<not> truthy (own json ''success'')"
  shows "documents (snd (on_json rt c (Body json) now s))
     = marked_error (c_id (calls s ! c)) (message_of (backend_error rt json)) (documents s)"
proof -
  have "on_json rt c (Body json) now s = catch_block c (backend_error rt json) s"
    by (rule on_json_Inl) (simp add: after_json_failure [OF assms])
  then show ?thesis
    using catch_block_result [of c _ s] by (simp add: updateDoc_marked)
qed

lemma on_json_faulting:
  assumes "after_json rt json now = Inl e"
  shows "documents (snd (on_json rt c (Body json) now s))
     = marked_error (c_id (calls s ! c)) (message_of e) (documents s)"
proof -
  have "on_json rt c (Body json) now s = catch_block c e s"
    by (rule on_json_Inl) (simp add: assms)
  then show ?thesis
    using catch_block_result [of c e s] by (simp add: updateDoc_marked)
qed

lemma updateDoc_forced:
  "updateDoc i (no_updates\<lparr>u_stage := Some error, u_error := Some (Some ''Processing failed''),
                           u_stageMessage := Some ''Error''\<rparr>) ds
   = marked_error i ''Processing failed'' ds"
  by (simp add: marked_error_def updateDoc_def spread_def no_updates_def)

lemma worker_forces_error:
  "worker_resume c now (Some e, s)
     = processQueue_loop now
         (s\<lparr>documents := marked_error (c_id (calls s ! c)) ''Processing failed'' (documents s),
            writes := writes s @ [(Worker, c_id (calls s ! c),
               no_updates\<lparr>u_stage := Some error, u_error := Some (Some ''Processing failed''),
                           u_stageMessage := Some ''Error''\<rparr>)]\<rparr>)"
  by (simp add: worker_resume_def write_doc_def updateDoc_forced)

lemma processQueue_loop_next:
  "processingQueue s = item # rest \<Longrightarrow>
   processingQueue (processQueue_loop now s) = rest
   \<and> isProcessing (processQueue_loop now s) = isProcessing s
   \<and> calls (processQueue_loop now s)
       = calls s @ [\<lparr>c_id = fst item, c_file = snd item, isSimulationRunning = True,
                     c_main = AwaitFetch, c_sim = Sleeping 0\<rparr>]"
  by (simp add: processQueue_loop_def processDocument_start_def runSimulation_def Let_def
      STAGE_FLOW_def set_call_def write_doc_def nth_append)

lemma bad_pdf_run:
  "documents (run rt [AddFiles [(f, t, r)] n0, FetchSettles 0 (Response True st) n1,
                      JsonSettles 0 (Body bad_pdf_response) n2] init)
   = [(new_doc (f, t, r))\<lparr>stage := error, stageMessage := ''Error'',
        error_text := Some ''bad pdf'', startedAt := Some n0\<rparr>]"
  by (simp add: run_defs bad_pdf_response_def)

lemma http_500_run:
  "documents (run rt [AddFiles [(f, t, r)] n0, FetchSettles 0 (Response False st) n1] init)
   = [(new_doc (f, t, r))\<lparr>stage := error, stageMessage := ''Error'',
        error_text := Some (''Server error: '' @ st), startedAt := Some n0\<rparr>]"
  by (simp add: run_defs)

lemma new_doc_result: "result (new_doc x) = JNull"
  by (simp add: new_doc_def split: prod.splits)


section \<open>Properties of the result export\<close>


























lemma cell_quoted_note:
  "cell rt (JObj [(''note'', JStr quoted_note)]) ''note''
     = Inr ([dquote] @ ''say '' @ [dquote, dquote] @ ''hi'' @ [dquote, dquote] @ [dquote])"
  by (simp add: cell_def get_member_def coalesce_def nullish_def escape_def quoted_note_def
      dquote_def)




lemma truthy_shaped: "result_shaped d \<Longrightarrow> truthy (result d) = (result d \<noteq> JNull)"
  by (cases "result d") (simp_all add: result_shaped_def)

lemma completedDocs_shaped:
  "\<forall>d \<in> set docs. result_shaped d \<Longrightarrow> completedDocs docs = complete_with_result docs"
  unfolding completedDocs_def complete_with_result_def
  by (rule filter_cong) (simp_all add: truthy_shaped)

lemma flat_claims_shaped:
  "result_shaped d \<Longrightarrow> flat (or_else (read_opt (result d) ''claims'') (JArr [])) = claims_list d"
proof (cases "result d")
  case (JObj kvs)
  assume "result_shaped d"
  with JObj show ?thesis
    by (cases "lookup kvs ''claims''")
       (simp_all add: result_shaped_def claims_list_def read_opt_def nullish_def or_else_def)
qed (simp_all add: result_shaped_def claims_list_def read_opt_def nullish_def or_else_def)

lemma getAllClaims_shaped:
  assumes "\<forall>d \<in> set docs. result_shaped d"
  shows "getAllClaims docs = concat (map claims_list (complete_with_result docs))"
proof -
  have "\<forall>d \<in> set (complete_with_result docs). result_shaped d"
    using assms by (simp add: complete_with_result_def)
  then have "map (\<lambda>d. flat (or_else (read_opt (result d) ''claims'') (JArr []))) (complete_with_result docs)
        = map claims_list (complete_with_result docs)"
    by (simp add: flat_claims_shaped)
  then show ?thesis
    by (simp only: getAllClaims_def completedDocs_shaped [OF assms])
qed

text \<open>
  C8. With fewer than two documents in stage \<open>complete\<close> with a result the component
  renders nothing, so there is no merge output, neither JSON nor CSV; whenever it renders, at
  least two such documents exist. For results of the declared shape (\<^verbatim>\<open>null\<close>, or an
  object with a claims array) the documents the component merges are exactly those in stage
  \<open>complete\<close> with a result that is not \<^verbatim>\<open>null\<close>, in registry order, and the
  merged JSON is the concatenation of their claims lists in that order.
\<close>

theorem merge_needs_two_completed:
  "(length (completedDocs docs) < 2 \<longrightarrow> MergeJsonButton rt docs = None)
   \<and> (MergeJsonButton rt docs \<noteq> None \<longrightarrow> 2 \<le> length (completedDocs docs))
   \<and> ((\<forall>d \<in> set docs. result_shaped d) \<longrightarrow>
        completedDocs docs = complete_with_result docs
        \<and> (\<forall>click. MergeJsonButton rt docs = Some click \<longrightarrow>
              2 \<le> length (complete_with_result docs)
              \<and> click MergeToJson
                  = Inr (Some (JsonFile (concat (map claims_list (complete_with_result docs)))))))"
proof -
  have a: "length (completedDocs docs) < 2 \<longrightarrow> MergeJsonButton rt docs = None"
    by (simp add: MergeJsonButton_def)
  have b: "MergeJsonButton rt docs \<noteq> None \<longrightarrow> 2 \<le> length (completedDocs docs)"
    by (simp add: MergeJsonButton_def)
  have c: "completedDocs docs = complete_with_result docs
        \<and> (\<forall>click. MergeJsonButton rt docs = Some click \<longrightarrow>
              2 \<le> length (complete_with_result docs)
              \<and> click MergeToJson
                  = Inr (Some (JsonFile (concat (map claims_list (complete_with_result docs))))))"
    if sh: "\<forall>d \<in> set docs. result_shaped d"
    using completedDocs_shaped [OF sh] getAllClaims_shaped [OF sh]
    by (auto simp: MergeJsonButton_def handleDownloadJson_def split: if_splits)
  show ?thesis
    using a b c by blast
qed


theorem merge_needs_two_completed_witness:
  "length (completedDocs [doc_a]) < 2
   \<and> MergeJsonButton sample_runtime [doc_a] = None
   \<and> result_shaped doc_a \<and> result_shaped doc_b
   \<and> complete_with_result [doc_a, doc_b] = [doc_a, doc_b]
   \<and> (case MergeJsonButton sample_runtime [doc_a, doc_b] of
         None \<Rightarrow> False
       | Some click \<Rightarrow>
           click MergeToJson = Inr (Some (JsonFile [JObj [(''a'', JNum 1)], JObj [(''b'', JNum 2)]])))"
proof -
  note one = merge_needs_two_completed [where docs = "[doc_a]" and rt = sample_runtime]
  note two = merge_needs_two_completed [where docs = "[doc_a, doc_b]" and rt = sample_runtime]
  have h1: "length (completedDocs [doc_a]) < 2"
    by (simp add: completedDocs_def)
  have h2: "result_shaped doc_a \<and> result_shaped doc_b"
    by (simp add: result_shaped_def doc_a_def doc_b_def completed_doc_def)
  then have h2': "\<forall>d \<in> set [doc_a, doc_b]. result_shaped d"
    by simp
  obtain click where h3: "MergeJsonButton sample_runtime [doc_a, doc_b] = Some click"
    by (simp add: MergeJsonButton_def completedDocs_def doc_a_def doc_b_def completed_doc_def)
  have c1: "MergeJsonButton sample_runtime [doc_a] = None"
    using one h1 by blast
  have e1: "complete_with_result [doc_a, doc_b] = [doc_a, doc_b]"
    by (simp add: complete_with_result_def doc_a_def doc_b_def completed_doc_def)
  have e2: "concat (map claims_list [doc_a, doc_b]) = [JObj [(''a'', JNum 1)], JObj [(''b'', JNum 2)]]"
    by (simp add: claims_list_def doc_a_def doc_b_def completed_doc_def)
  have c2: "click MergeToJson = Inr (Some (JsonFile [JObj [(''a'', JNum 1)], JObj [(''b'', JNum 2)]]))"
    using two [THEN conjunct2, THEN conjunct2] h2' h3 e1 e2 by simp
  show ?thesis
    using h1 c1 h2 e1 c2 by (simp add: h3)
qed

section \<open>Properties of the transition system\<close>

subsection \<open>The steps in closed form\<close>

lemma runSimulation_documents:
  "documents (runSimulation c k s) =
     (if sim_writes c k s then updateDoc (c_id (calls s ! c)) (step_updates k) (documents s)
      else documents s)"
  by (simp add: runSimulation_def sim_writes_def set_call_def write_doc_def)

lemma runSimulation_writes:
  "writes (runSimulation c k s) =
     (if sim_writes c k s then writes s @ [(Simulator c, c_id (calls s ! c), step_updates k)]
      else writes s)"
  by (simp add: runSimulation_def sim_writes_def set_call_def write_doc_def)

lemma runSimulation_calls:
  "calls (runSimulation c k s) =
     (calls s)[c := (calls s ! c)\<lparr>c_sim := (if sim_writes c k s then Sleeping k else Finished)\<rparr>]"
  by (simp add: runSimulation_def sim_writes_def set_call_def write_doc_def)

lemma runSimulation_rest:
  "isProcessing (runSimulation c k s) = isProcessing s"
  "processingQueue (runSimulation c k s) = processingQueue s"
  "activeDocId (runSimulation c k s) = activeDocId s"
  by (simp_all add: runSimulation_def set_call_def write_doc_def)

lemma loop_empty: "processingQueue s = [] \<Longrightarrow> processQueue_loop now s = s\<lparr>isProcessing := False\<rparr>"
  by (simp add: processQueue_loop_def)

lemma loop_cons:
  assumes "processingQueue s = item # rest"
  shows "calls (processQueue_loop now s) = calls s @ [new_call item]"
    and "documents (processQueue_loop now s)
          = updateDoc (fst item) (step_updates 0) (updateDoc (fst item) (start_updates now) (documents s))"
    and "writes (processQueue_loop now s)
          = writes s @ [(Main (length (calls s)), fst item, start_updates now),
                        (Simulator (length (calls s)), fst item, step_updates 0)]"
    and "processingQueue (processQueue_loop now s) = rest"
    and "isProcessing (processQueue_loop now s) = isProcessing s"
    and "activeDocId (processQueue_loop now s) = Some (fst item)"
  using assms
  by (simp_all add: processQueue_loop_def processDocument_start_def Let_def runSimulation_documents
      runSimulation_writes runSimulation_calls runSimulation_rest sim_writes_def write_doc_def
      STAGE_FLOW_def new_call_def)

lemma catch_block_finish: "catch_block c e s = (None, finish c (catch_updates e) s)"
  by (cases "c < length (calls s)")
     (simp_all add: catch_block_def finish_def Let_def set_call_def write_doc_def list_update_beyond)

lemma on_fetch_cases:
  "on_fetch c out s =
     (case out of
        Response True st \<Rightarrow>
          Inr (s\<lparr>calls := (calls s)[c := (calls s ! c)\<lparr>isSimulationRunning := False,
                                                       c_main := AwaitJson\<rparr>]\<rparr>)
      | _ \<Rightarrow> Inl (None, finish c (catch_updates (fetch_error out)) s))"
  by (cases "c < length (calls s)")
     (auto simp: on_fetch_def catch_block_finish finish_def fetch_error_def Let_def set_call_def
        list_update_beyond split: fetch_outcome.splits bool.splits)

lemma on_json_finish:
  "\<not> isSimulationRunning (calls s ! c) \<Longrightarrow>
   on_json rt c out now s = (None, finish c (settle_updates rt out now) s)"
proof -
  assume f: "\<not> isSimulationRunning (calls s ! c)"
  have same: "(calls s ! c)\<lparr>c_main := Returned\<rparr>
              = (calls s ! c)\<lparr>isSimulationRunning := False, c_main := Returned\<rparr>"
    using f by simp
  show ?thesis
    by (cases "(case out of BodyRejected e \<Rightarrow> Inl e | Body json \<Rightarrow> after_json rt json now)")
       (simp_all add: on_json_def catch_block_finish settle_updates_def finish_def set_call_def
          write_doc_def same)
qed

lemma step_TimerFires:
  "step rt (TimerFires c) s =
     (if c < length (calls s) then
        (case c_sim (calls s ! c) of Sleeping k \<Rightarrow> runSimulation c (Suc k) s | Finished \<Rightarrow> s)
      else s)"
  by (simp add: step_def)

lemma step_FetchSettles:
  "c < length (calls s) \<Longrightarrow> c_main (calls s ! c) = AwaitFetch \<Longrightarrow>
   step rt (FetchSettles c out now) s =
     (case out of
        Response True st \<Rightarrow>
          s\<lparr>calls := (calls s)[c := (calls s ! c)\<lparr>isSimulationRunning := False,
                                                  c_main := AwaitJson\<rparr>]\<rparr>
      | _ \<Rightarrow> processQueue_loop now (finish c (catch_updates (fetch_error out)) s))"
  by (simp add: step_def on_fetch_cases worker_resume_def split: fetch_outcome.splits bool.splits)

lemma step_JsonSettles:
  "c < length (calls s) \<Longrightarrow> c_main (calls s ! c) = AwaitJson \<Longrightarrow>
   \<not> isSimulationRunning (calls s ! c) \<Longrightarrow>
   step rt (JsonSettles c out now) s = processQueue_loop now (finish c (settle_updates rt out now) s)"
  by (simp add: step_def on_json_finish worker_resume_def)

lemma step_disabled:
  "\<not> (c < length (calls s) \<and> c_main (calls s ! c) = AwaitFetch) \<Longrightarrow>
   step rt (FetchSettles c out now) s = s"
  "\<not> (c < length (calls s) \<and> c_main (calls s ! c) = AwaitJson) \<Longrightarrow>
   step rt (JsonSettles c out' now) s = s"
  by (auto simp: step_def)

lemma doc_item_eta: "(\<lambda>d. (doc_id d, doc_file d)) = doc_item"
  by (simp add: fun_eq_iff doc_item_def)

lemma addFiles_cases:
  "addFiles files now s =
     (let s3 = s\<lparr>documents := documents s @ newDocs files,
                 activeDocId := (if (case activeDocId s of None \<Rightarrow> True | Some a \<Rightarrow> a = [])
                                     \<and> files \<noteq> []
                                  then Some (doc_id (hd (newDocs files))) else activeDocId s),
                 processingQueue := processingQueue s @ map doc_item (newDocs files)\<rparr>
      in if isProcessing s then s3 else processQueue_loop now (s3\<lparr>isProcessing := True\<rparr>))"
  by (simp add: addFiles_def processQueue_def Let_def newDocs_def doc_item_eta)

subsection \<open>One operation in flight\<close>

lemma single_flight_init: "single_flight init"
  by (simp add: single_flight_def init_def)

lemma unreturned_is_last:
  assumes "single_flight s" "c < length (calls s)" "c_main (calls s ! c) \<noteq> Returned"
  shows "Suc c = length (calls s)" and "isProcessing s"
proof -
  from assms(1,3) have "\<not> Suc c < length (calls s)"
    by (auto simp: single_flight_def)
  with assms(2) show "Suc c = length (calls s)" by simp
  from assms show "isProcessing s"
    by (auto simp: single_flight_def)
qed

lemma returned_unless_processing:
  "single_flight s \<Longrightarrow> \<not> isProcessing s \<Longrightarrow> j < length (calls s) \<Longrightarrow>
   c_main (calls s ! j) = Returned \<and> \<not> isSimulationRunning (calls s ! j)"
  by (auto simp: single_flight_def)

lemma single_flight_sim: "single_flight s \<Longrightarrow> single_flight (runSimulation c k s)"
proof -
  assume sf: "single_flight s"
  obtain p where cs: "calls (runSimulation c k s) = (calls s)[c := (calls s ! c)\<lparr>c_sim := p\<rparr>]"
    using runSimulation_calls by blast
  have m: "c_main (((calls s)[c := (calls s ! c)\<lparr>c_sim := p\<rparr>]) ! j) = c_main (calls s ! j)"
    and f: "isSimulationRunning (((calls s)[c := (calls s ! c)\<lparr>c_sim := p\<rparr>]) ! j)
            = isSimulationRunning (calls s ! j)"
    if "j < length (calls s)" for j
    using that by (cases "j = c"; simp)+
  have n: "Suc j < length (calls s) \<Longrightarrow> j < length (calls s)" for j by simp
  show ?thesis
    using sf unfolding single_flight_def cs runSimulation_rest
    by (simp add: m f n cong: conj_cong)
qed

lemma single_flight_await:
  assumes "single_flight s" "c < length (calls s)" "c_main (calls s ! c) = AwaitFetch"
  shows "single_flight (s\<lparr>calls := (calls s)[c := (calls s ! c)\<lparr>isSimulationRunning := False,
                                                          c_main := AwaitJson\<rparr>]\<rparr>)"
proof -
  from assms(3) have nr: "c_main (calls s ! c) \<noteq> Returned" by simp
  note l = unreturned_is_last [OF assms(1,2) nr]
  let ?cs = "(calls s)[c := (calls s ! c)\<lparr>isSimulationRunning := False, c_main := AwaitJson\<rparr>]"
  have a: "\<forall>j. Suc j < length ?cs \<longrightarrow> c_main (?cs ! j) = Returned"
    using assms(1) l(1) by (auto simp: single_flight_def nth_list_update)
  have b: "\<exists>j < length ?cs. c_main (?cs ! j) \<noteq> Returned"
    using assms(2) by (auto intro!: exI [of _ c])
  have d: "\<forall>j < length ?cs. isSimulationRunning (?cs ! j) \<longrightarrow> c_main (?cs ! j) = AwaitFetch"
  proof (intro allI impI)
    fix j assume j: "j < length ?cs" and f: "isSimulationRunning (?cs ! j)"
    show "c_main (?cs ! j) = AwaitFetch"
    proof (cases "j = c")
      case True
      with f j show ?thesis by simp
    next
      case False
      with f j assms(1) show ?thesis by (simp add: single_flight_def)
    qed
  qed
  show ?thesis
    unfolding single_flight_def using a b d l(2) by simp
qed

lemma finish_fields:
  "calls (finish c u s)
     = (calls s)[c := (calls s ! c)\<lparr>isSimulationRunning := False, c_main := Returned\<rparr>]"
  "documents (finish c u s) = updateDoc (c_id (calls s ! c)) u (documents s)"
  "writes (finish c u s) = writes s @ [(Main c, c_id (calls s ! c), u)]"
  "processingQueue (finish c u s) = processingQueue s"
  "isProcessing (finish c u s) = isProcessing s"
  "activeDocId (finish c u s) = activeDocId s"
  by (simp_all add: finish_def)

lemma finish_all_returned:
  assumes "single_flight s" "c < length (calls s)" "c_main (calls s ! c) \<noteq> Returned"
    and "j < length (calls s)"
  shows "c_main (calls (finish c u s) ! j) = Returned
       \<and> \<not> isSimulationRunning (calls (finish c u s) ! j)"
proof (cases "j = c")
  case True
  with assms(2) show ?thesis by (simp add: finish_fields)
next
  case False
  with assms(4) unreturned_is_last(1) [OF assms(1,2,3)] have "Suc j < length (calls s)" by simp
  with assms(1) have r: "c_main (calls s ! j) = Returned"
    by (simp add: single_flight_def)
  with assms(1,4) have "\<not> isSimulationRunning (calls s ! j)"
    by (auto simp: single_flight_def)
  with r False show ?thesis by (simp add: finish_fields)
qed

lemma single_flight_started:
  assumes "\<And>j. j < length (calls t) \<Longrightarrow>
              c_main (calls t ! j) = Returned \<and> \<not> isSimulationRunning (calls t ! j)"
    and "isProcessing t"
  shows "single_flight (processQueue_loop now t)"
proof (cases "processingQueue t")
  case Nil
  then have "processQueue_loop now t = t\<lparr>isProcessing := False\<rparr>"
    by (simp add: loop_empty)
  then show ?thesis
    using assms(1) Nil by (simp add: single_flight_def)
next
  case (Cons item rest)
  have a: "\<forall>j. Suc j < length (calls t @ [new_call item])
             \<longrightarrow> c_main ((calls t @ [new_call item]) ! j) = Returned"
    using assms(1) by (simp add: nth_append)
  have b: "\<exists>j < length (calls t @ [new_call item]). c_main ((calls t @ [new_call item]) ! j) \<noteq> Returned"
    by (rule exI [of _ "length (calls t)"]) (simp add: new_call_def)
  have d: "\<forall>j < length (calls t @ [new_call item]).
             isSimulationRunning ((calls t @ [new_call item]) ! j)
             \<longrightarrow> c_main ((calls t @ [new_call item]) ! j) = AwaitFetch"
    using assms(1) by (auto simp: nth_append new_call_def)
  show ?thesis
    unfolding single_flight_def loop_cons [OF Cons]
    using a b d assms(2) by simp
qed

lemma single_flight_finish_loop:
  assumes "single_flight s" "c < length (calls s)" "c_main (calls s ! c) \<noteq> Returned"
  shows "single_flight (processQueue_loop now (finish c u s))"
proof (rule single_flight_started)
  fix j assume "j < length (calls (finish c u s))"
  then have "j < length (calls s)" by (simp add: finish_fields)
  from finish_all_returned [OF assms this]
  show "c_main (calls (finish c u s) ! j) = Returned
        \<and> \<not> isSimulationRunning (calls (finish c u s) ! j)" .
next
  from unreturned_is_last(2) [OF assms] show "isProcessing (finish c u s)"
    by (simp add: finish_fields)
qed

text \<open>The state \<^verbatim>\<open>addFiles\<close> hands to \<^verbatim>\<open>processQueue\<close>.\<close>

lemma addFiles_busy:
  "isProcessing s \<Longrightarrow>
   calls (addFiles files now s) = calls s
   \<and> isProcessing (addFiles files now s)
   \<and> processingQueue (addFiles files now s) = processingQueue s @ map doc_item (newDocs files)
   \<and> documents (addFiles files now s) = documents s @ newDocs files
   \<and> writes (addFiles files now s) = writes s"
  by (simp add: addFiles_cases)

lemma addFiles_idle:
  assumes "\<not> isProcessing s"
  obtains t where "addFiles files now s = processQueue_loop now t"
    and "calls t = calls s" and "isProcessing t" and "writes t = writes s"
    and "processingQueue t = processingQueue s @ map doc_item (newDocs files)"
    and "documents t = documents s @ newDocs files"
proof -
  let ?t = "s\<lparr>documents := documents s @ newDocs files,
               activeDocId := (if (case activeDocId s of None \<Rightarrow> True | Some a \<Rightarrow> a = [])
                                   \<and> files \<noteq> []
                                then Some (doc_id (hd (newDocs files))) else activeDocId s),
               processingQueue := processingQueue s @ map doc_item (newDocs files),
               isProcessing := True\<rparr>"
  have "addFiles files now s = processQueue_loop now ?t"
    using assms by (simp add: addFiles_cases Let_def)
  then show thesis
    by (rule that) simp_all
qed

lemma single_flight_add: "single_flight s \<Longrightarrow> single_flight (addFiles files now s)"
proof (cases "isProcessing s")
  case True
  assume sf: "single_flight s"
  from addFiles_busy [OF True, of files now] sf True show ?thesis
    by (simp add: single_flight_def)
next
  case False
  assume sf: "single_flight s"
  from addFiles_idle [OF False] obtain t
    where t: "addFiles files now s = processQueue_loop now t" "calls t = calls s" "isProcessing t"
    by metis
  show ?thesis
    unfolding t(1)
  proof (rule single_flight_started)
    fix j assume "j < length (calls t)"
    then have "j < length (calls s)" by (simp add: t(2))
    from returned_unless_processing [OF sf False this]
    show "c_main (calls t ! j) = Returned \<and> \<not> isSimulationRunning (calls t ! j)"
      by (simp add: t(2))
  qed (rule t(3))
qed

lemma single_flight_step: "single_flight s \<Longrightarrow> single_flight (step rt ev s)"
proof (cases ev)
  case (AddFiles files now)
  assume "single_flight s"
  then show ?thesis by (simp add: AddFiles step_def single_flight_add)
next
  case (TimerFires c)
  assume "single_flight s"
  then show ?thesis
    by (simp add: TimerFires step_TimerFires single_flight_sim split: sim_phase.splits)
next
  case (FetchSettles c out now)
  assume sf: "single_flight s"
  show ?thesis
  proof (cases "c < length (calls s) \<and> c_main (calls s ! c) = AwaitFetch")
    case True
    then have c: "c < length (calls s)" and m: "c_main (calls s ! c) = AwaitFetch" by simp_all
    from m have nr: "c_main (calls s ! c) \<noteq> Returned" by simp
    show ?thesis
      unfolding FetchSettles step_FetchSettles [OF c m]
      using single_flight_await [OF sf c m] single_flight_finish_loop [OF sf c nr]
      by (simp split: fetch_outcome.splits bool.splits)
  next
    case False
    with sf show ?thesis by (simp add: FetchSettles step_disabled)
  qed
next
  case (JsonSettles c out now)
  assume sf: "single_flight s"
  show ?thesis
  proof (cases "c < length (calls s) \<and> c_main (calls s ! c) = AwaitJson")
    case True
    then have c: "c < length (calls s)" and m: "c_main (calls s ! c) = AwaitJson" by simp_all
    from m have nr: "c_main (calls s ! c) \<noteq> Returned" by simp
    from sf c m have f: "\<not> isSimulationRunning (calls s ! c)"
      by (auto simp: single_flight_def)
    show ?thesis
      unfolding JsonSettles step_JsonSettles [OF c m f]
      by (rule single_flight_finish_loop [OF sf c nr])
  next
    case False
    with sf show ?thesis by (simp add: JsonSettles step_disabled)
  qed
next
  case (SelectDoc i)
  assume "single_flight s"
  then show ?thesis by (simp add: SelectDoc step_def single_flight_def)
qed

lemma single_flight_run: "single_flight s \<Longrightarrow> single_flight (run rt evs s)"
  by (induction evs arbitrary: s) (simp_all add: single_flight_step)

lemma in_flight_at_most_one: "single_flight s \<Longrightarrow> length (in_flight s) \<le> 1"
proof -
  assume sf: "single_flight s"
  show ?thesis
  proof (cases "calls s" rule: rev_cases)
    case Nil
    then show ?thesis by (simp add: in_flight_def)
  next
    case (snoc xs x)
    have "c_main (xs ! j) = Returned" if "j < length xs" for j
    proof -
      from that snoc have "Suc j < length (calls s)" by simp
      with sf have "c_main (calls s ! j) = Returned" by (simp add: single_flight_def)
      with that snoc show ?thesis by (simp add: nth_append)
    qed
    then have "filter (\<lambda>x. c_main x \<noteq> Returned) xs = []"
      by (auto simp: filter_empty_conv in_set_conv_nth)
    then show ?thesis by (simp add: in_flight_def snoc)
  qed
qed

subsection \<open>First in, first out\<close>

lemma call_item_new_call: "call_item (new_call item) = item"
  by (simp add: call_item_def new_call_def)

lemma map_call_item_update:
  "c_id x = c_id (cs ! c) \<Longrightarrow> c_file x = c_file (cs ! c) \<Longrightarrow>
   map call_item (cs[c := x]) = map call_item cs"
  by (cases "c < length cs") (simp_all add: map_update call_item_def list_update_beyond
      list_update_same_conv)

lemma items_loop:
  "map call_item (calls (processQueue_loop now t)) @ processingQueue (processQueue_loop now t)
   = map call_item (calls t) @ processingQueue t"
proof (cases "processingQueue t")
  case Nil
  then show ?thesis by (simp add: loop_empty)
next
  case (Cons item rest)
  show ?thesis
    by (simp add: loop_cons [OF Cons] Cons call_item_new_call)
qed

lemma items_finish:
  "map call_item (calls (finish c u s)) = map call_item (calls s)"
  "processingQueue (finish c u s) = processingQueue s"
  by (simp_all add: finish_fields map_call_item_update)

lemma items_sim:
  "map call_item (calls (runSimulation c k s)) = map call_item (calls s)"
  by (simp add: runSimulation_calls map_call_item_update)

lemma items_add:
  "map call_item (calls (addFiles files now s)) @ processingQueue (addFiles files now s)
   = map call_item (calls s) @ processingQueue s @ map doc_item (newDocs files)"
proof (cases "isProcessing s")
  case True
  from addFiles_busy [OF True, of files now] show ?thesis by simp
next
  case False
  from addFiles_idle [OF False] obtain t
    where "addFiles files now s = processQueue_loop now t" "calls t = calls s"
      "processingQueue t = processingQueue s @ map doc_item (newDocs files)"
    by metis
  then show ?thesis by (simp add: items_loop)
qed

lemma items_step:
  "map call_item (calls (step rt ev s)) @ processingQueue (step rt ev s)
   = map call_item (calls s) @ processingQueue s @ added [ev]"
proof (cases ev)
  case (AddFiles files now)
  then show ?thesis by (simp add: step_def items_add)
next
  case (TimerFires c)
  then show ?thesis
    by (simp add: step_TimerFires items_sim runSimulation_rest split: sim_phase.splits)
next
  case (FetchSettles c out now)
  show ?thesis
  proof (cases "c < length (calls s) \<and> c_main (calls s ! c) = AwaitFetch")
    case True
    then have c: "c < length (calls s)" and m: "c_main (calls s ! c) = AwaitFetch" by simp_all
    show ?thesis
      unfolding FetchSettles step_FetchSettles [OF c m]
      by (simp add: items_loop items_finish map_call_item_update
          split: fetch_outcome.splits bool.splits)
  next
    case False
    then show ?thesis by (simp add: FetchSettles step_disabled)
  qed
next
  case (JsonSettles c out now)
  show ?thesis
  proof (cases "c < length (calls s) \<and> c_main (calls s ! c) = AwaitJson")
    case True
    then show ?thesis
      by (simp add: JsonSettles step_def worker_resume_def on_json_never_throws items_loop
          on_json_def catch_block_finish items_finish set_call_def write_doc_def
          map_call_item_update split: sum.splits)
  next
    case False
    then show ?thesis by (simp add: JsonSettles step_disabled)
  qed
next
  case (SelectDoc i)
  then show ?thesis by (simp add: step_def)
qed

lemma added_append: "added (evs @ evs') = added evs @ added evs'"
  by (induction evs rule: added.induct) simp_all

lemma items_run:
  "map call_item (calls (run rt evs s)) @ processingQueue (run rt evs s)
   = map call_item (calls s) @ processingQueue s @ added evs"
proof (induction evs arbitrary: s)
  case Nil
  show ?case by simp
next
  case (Cons ev evs)
  have "added (ev # evs) = added [ev] @ added evs"
    using added_append [of "[ev]" evs] by simp
  then show ?case
    by (simp add: Cons.IH items_step)
qed

subsection \<open>The worker goes on when an invocation returns\<close>

lemma calls_loop_nth:
  "c < length (calls t) \<Longrightarrow> calls (processQueue_loop now t) ! c = calls t ! c"
proof (cases "processingQueue t")
  case Nil
  then show ?thesis by (simp add: loop_empty)
next
  case (Cons item rest)
  assume "c < length (calls t)"
  then show ?thesis by (simp add: loop_cons [OF Cons] nth_append)
qed

lemma c_main_sim:
  "c < length (calls s) \<Longrightarrow> c_main (calls (runSimulation c' k s) ! c) = c_main (calls s ! c)"
  by (cases "c = c'") (simp_all add: runSimulation_calls)

lemma returned_after_finish_loop:
  "c < length (calls s) \<Longrightarrow> c_main (calls (processQueue_loop now (finish c u s)) ! c) = Returned"
  by (simp add: calls_loop_nth finish_fields)

text \<open>A fetch that leads to no body and a body that has settled make the invocation return;
  a response that is \<^verbatim>\<open>ok\<close> takes it to the body.\<close>

lemma fetch_settles_phase:
  assumes "c < length (calls s)" "c_main (calls s ! c) = AwaitFetch"
  shows "c_main (calls (step rt (FetchSettles c out now) s) ! c)
         = (case out of FetchRejected e \<Rightarrow> Returned
            | Response ok st \<Rightarrow> if ok then AwaitJson else Returned)"
  unfolding step_FetchSettles [OF assms]
  using assms(1) returned_after_finish_loop [OF assms(1)]
  by (simp split: fetch_outcome.splits bool.splits)

lemma json_settles_phase:
  assumes "single_flight s" "c < length (calls s)" "c_main (calls s ! c) = AwaitJson"
  shows "c_main (calls (step rt (JsonSettles c out now) s) ! c) = Returned"
proof -
  from assms have f: "\<not> isSimulationRunning (calls s ! c)"
    by (auto simp: single_flight_def)
  show ?thesis
    unfolding step_JsonSettles [OF assms(2,3) f]
    by (rule returned_after_finish_loop [OF assms(2)])
qed

text \<open>A step in which an invocation returns is its final write followed by the loop of the
  worker.\<close>

lemma return_step:
  assumes sf: "single_flight s" and c: "c < length (calls s)"
    and nr: "c_main (calls s ! c) \<noteq> Returned"
    and r: "c_main (calls (step rt ev s) ! c) = Returned"
  obtains now u where "step rt ev s = processQueue_loop now (finish c u s)"
proof (cases ev)
  case (AddFiles files now)
  from unreturned_is_last(2) [OF sf c nr] have "isProcessing s" .
  from addFiles_busy [OF this, of files now] r nr AddFiles show thesis
    by (simp add: step_def)
next
  case (TimerFires c')
  with r nr c show thesis
    by (simp add: step_TimerFires c_main_sim split: if_splits sim_phase.splits)
next
  case (FetchSettles c' out now)
  show thesis
  proof (cases "c' < length (calls s) \<and> c_main (calls s ! c') = AwaitFetch")
    case True
    then have c': "c' < length (calls s)" and m: "c_main (calls s ! c') = AwaitFetch" by simp_all
    from m have "c_main (calls s ! c') \<noteq> Returned" by simp
    from unreturned_is_last(1) [OF sf c' this] unreturned_is_last(1) [OF sf c nr]
    have eq: "c' = c" by simp
    from m eq have mc: "c_main (calls s ! c) = AwaitFetch" by simp
    from FetchSettles eq have ev: "ev = FetchSettles c out now" by simp
    show thesis
    proof (cases "case out of FetchRejected e \<Rightarrow> False | Response ok st \<Rightarrow> ok")
      case True
      with r fetch_settles_phase [OF c mc, of rt out now] ev show thesis
        by (simp split: fetch_outcome.splits)
    next
      case False
      then have "step rt ev s = processQueue_loop now (finish c (catch_updates (fetch_error out)) s)"
        unfolding ev step_FetchSettles [OF c mc]
        by (simp split: fetch_outcome.splits bool.splits)
      then show thesis by (rule that)
    qed
  next
    case False
    with r nr FetchSettles show thesis by (simp add: step_disabled)
  qed
next
  case (JsonSettles c' out now)
  show thesis
  proof (cases "c' < length (calls s) \<and> c_main (calls s ! c') = AwaitJson")
    case True
    then have c': "c' < length (calls s)" and m: "c_main (calls s ! c') = AwaitJson" by simp_all
    from m have "c_main (calls s ! c') \<noteq> Returned" by simp
    from unreturned_is_last(1) [OF sf c' this] unreturned_is_last(1) [OF sf c nr]
    have eq: "c' = c" by simp
    from m eq have mc: "c_main (calls s ! c) = AwaitJson" by simp
    from sf c mc have f: "\<not> isSimulationRunning (calls s ! c)"
      by (auto simp: single_flight_def)
    have "step rt ev s = processQueue_loop now (finish c (settle_updates rt out now) s)"
      using JsonSettles eq step_JsonSettles [OF c mc f, of rt out now] by simp
    then show thesis by (rule that)
  next
    case False
    with r nr JsonSettles show thesis by (simp add: step_disabled)
  qed
next
  case (SelectDoc i)
  with r nr show thesis by (simp add: step_def)
qed

lemma worker_after_return:
  assumes "t = processQueue_loop now (finish c u s)"
  shows "case processingQueue s of
           [] \<Rightarrow> \<not> isProcessing t \<and> length (calls t) = length (calls s)
         | item # rest \<Rightarrow>
             isProcessing t = isProcessing s
             \<and> length (calls t) = Suc (length (calls s))
             \<and> calls t ! length (calls s) = new_call item
             \<and> processingQueue t = rest
             \<and> activeDocId t = Some (fst item)"
proof (cases "processingQueue s")
  case Nil
  then have "processingQueue (finish c u s) = []" by (simp add: finish_fields)
  from loop_empty [OF this] assms Nil show ?thesis by (simp add: finish_fields)
next
  case (Cons item rest)
  then have q: "processingQueue (finish c u s) = item # rest" by (simp add: finish_fields)
  from loop_cons [OF q, of now] assms Cons show ?thesis
    by (simp add: finish_fields nth_append)
qed

lemma return_step_worker:
  assumes "single_flight s" "c < length (calls s)" "c_main (calls s ! c) \<noteq> Returned"
    and "c_main (calls (step rt ev s) ! c) = Returned"
  shows "case processingQueue s of
           [] \<Rightarrow> \<not> isProcessing (step rt ev s) \<and> length (calls (step rt ev s)) = length (calls s)
         | item # rest \<Rightarrow>
             isProcessing (step rt ev s) = isProcessing s
             \<and> length (calls (step rt ev s)) = Suc (length (calls s))
             \<and> calls (step rt ev s) ! length (calls s) = new_call item
             \<and> processingQueue (step rt ev s) = rest
             \<and> activeDocId (step rt ev s) = Some (fst item)"
proof -
  from return_step [OF assms] obtain now u
    where "step rt ev s = processQueue_loop now (finish c u s)" by blast
  from worker_after_return [OF this] show ?thesis .
qed

text \<open>
  C2. The queue serializes the work. A call of the worker while \<^verbatim>\<open>isProcessing\<close> is set
  changes nothing. In every state the hook reaches, at most one invocation of the
  per-document operation has not returned. In every reachable state the invocations started
  so far, followed by the pending list, are the items added so far in the order of their
  addition: items are started first in, first out, none twice and none skipped. Files added
  during a drain start no invocation; they go to the end of the pending list. The running
  worker takes them from there: in a reachable state, a request that settles without a body
  to read and a body that settles make the invocation in flight return, and the step in which
  an invocation returns starts the head of the pending list as the next invocation, or, the
  list being empty, ends the worker and clears \<^verbatim>\<open>isProcessing\<close>.
\<close>

theorem queue_serializes:
  "(isProcessing s \<longrightarrow> processQueue now s = s)
   \<and> length (in_flight (run rt evs init)) \<le> 1
   \<and> map call_item (calls (run rt evs init)) @ processingQueue (run rt evs init) = added evs
   \<and> (isProcessing s \<longrightarrow>
        calls (addFiles files now s) = calls s
        \<and> processingQueue (addFiles files now s)
            = processingQueue s @ map doc_item (newDocs files))
   \<and> (processingQueue s = item # rest \<longrightarrow>
        calls (processQueue_loop now s) = calls s @ [new_call item]
        \<and> processingQueue (processQueue_loop now s) = rest)
   \<and> (c < length (calls (run rt evs init)) \<longrightarrow>
        c_main (calls (run rt evs init) ! c) = AwaitFetch \<longrightarrow>
          c_main (calls (step rt (FetchSettles c fo now) (run rt evs init)) ! c)
            = (case fo of FetchRejected e \<Rightarrow> Returned
               | Response ok st \<Rightarrow> if ok then AwaitJson else Returned))
   \<and> (c < length (calls (run rt evs init)) \<longrightarrow>
        c_main (calls (run rt evs init) ! c) = AwaitJson \<longrightarrow>
          c_main (calls (step rt (JsonSettles c bo now) (run rt evs init)) ! c) = Returned)
   \<and> (c < length (calls (run rt evs init)) \<longrightarrow>
        c_main (calls (run rt evs init) ! c) \<noteq> Returned \<longrightarrow>
        c_main (calls (step rt ev (run rt evs init)) ! c) = Returned \<longrightarrow>
          (case processingQueue (run rt evs init) of
             [] \<Rightarrow> \<not> isProcessing (step rt ev (run rt evs init))
                   \<and> length (calls (step rt ev (run rt evs init))) = length (calls (run rt evs init))
           | next_item # others \<Rightarrow>
               isProcessing (step rt ev (run rt evs init)) = isProcessing (run rt evs init)
               \<and> length (calls (step rt ev (run rt evs init)))
                   = Suc (length (calls (run rt evs init)))
               \<and> calls (step rt ev (run rt evs init)) ! length (calls (run rt evs init))
                   = new_call next_item
               \<and> processingQueue (step rt ev (run rt evs init)) = others
               \<and> activeDocId (step rt ev (run rt evs init)) = Some (fst next_item)))"
proof -
  note sf = single_flight_run [OF single_flight_init, of rt evs]
  have a: "isProcessing s \<longrightarrow> processQueue now s = s"
    by (simp add: processQueue_def)
  have b: "length (in_flight (run rt evs init)) \<le> 1"
    by (rule in_flight_at_most_one) (rule sf)
  have c: "map call_item (calls (run rt evs init)) @ processingQueue (run rt evs init) = added evs"
    using items_run [of rt evs init] by (simp add: init_def)
  have d: "isProcessing s \<longrightarrow>
        calls (addFiles files now s) = calls s
        \<and> processingQueue (addFiles files now s)
            = processingQueue s @ map doc_item (newDocs files)"
    using addFiles_busy by blast
  have e: "processingQueue s = item # rest \<longrightarrow>
        calls (processQueue_loop now s) = calls s @ [new_call item]
        \<and> processingQueue (processQueue_loop now s) = rest"
    using loop_cons(1,4) by blast
  have f: "c < length (calls (run rt evs init)) \<longrightarrow>
        c_main (calls (run rt evs init) ! c) = AwaitFetch \<longrightarrow>
          c_main (calls (step rt (FetchSettles c fo now) (run rt evs init)) ! c)
            = (case fo of FetchRejected e \<Rightarrow> Returned
               | Response ok st \<Rightarrow> if ok then AwaitJson else Returned)"
    using fetch_settles_phase by blast
  have g: "c < length (calls (run rt evs init)) \<longrightarrow>
        c_main (calls (run rt evs init) ! c) = AwaitJson \<longrightarrow>
          c_main (calls (step rt (JsonSettles c bo now) (run rt evs init)) ! c) = Returned"
    using json_settles_phase [OF sf] by blast
  have h: "c < length (calls (run rt evs init)) \<longrightarrow>
        c_main (calls (run rt evs init) ! c) \<noteq> Returned \<longrightarrow>
        c_main (calls (step rt ev (run rt evs init)) ! c) = Returned \<longrightarrow>
          (case processingQueue (run rt evs init) of
             [] \<Rightarrow> \<not> isProcessing (step rt ev (run rt evs init))
                   \<and> length (calls (step rt ev (run rt evs init))) = length (calls (run rt evs init))
           | next_item # others \<Rightarrow>
               isProcessing (step rt ev (run rt evs init)) = isProcessing (run rt evs init)
               \<and> length (calls (step rt ev (run rt evs init)))
                   = Suc (length (calls (run rt evs init)))
               \<and> calls (step rt ev (run rt evs init)) ! length (calls (run rt evs init))
                   = new_call next_item
               \<and> processingQueue (step rt ev (run rt evs init)) = others
               \<and> activeDocId (step rt ev (run rt evs init)) = Some (fst next_item))"
    using return_step_worker [OF sf] by blast
  show ?thesis
    using a b c d e f g h by (intro conjI) assumption+
qed

lemma draining_state:
  "calls (run sample_runtime draining_run init)
     = [\<lparr>c_id = make_id 1700000000000 ''k3x9qa'', c_file = sample_file,
         isSimulationRunning = True, c_main = AwaitFetch, c_sim = Sleeping 0\<rparr>]"
  "processingQueue (run sample_runtime draining_run init)
     = [(make_id 1700000002000 ''p07zzm'', sample_file)]"
  "isProcessing (run sample_runtime draining_run init)"
  by (simp_all add: draining_run_def second_batch_def run_defs)

theorem queue_serializes_witness:
  "isProcessing busy_state
   \<and> processQueue 1700000002001 busy_state = busy_state
   \<and> calls (addFiles second_batch 1700000002001 busy_state) = calls busy_state
   \<and> processingQueue (addFiles second_batch 1700000002001 busy_state)
       = [(make_id 1700000002000 ''p07zzm'', sample_file)]
   \<and> calls (processQueue_loop 1700000003000 (addFiles second_batch 1700000002001 busy_state))
       = calls busy_state @ [new_call (make_id 1700000002000 ''p07zzm'', sample_file)]
   \<and> (0::nat) < length (calls (run sample_runtime draining_run init))
   \<and> c_main (calls (run sample_runtime draining_run init) ! 0) = AwaitFetch
   \<and> processingQueue (run sample_runtime draining_run init)
       = [(make_id 1700000002000 ''p07zzm'', sample_file)]
   \<and> c_main (calls (step sample_runtime
         (FetchSettles 0 (Response False ''Internal Server Error'') 1700000002500)
         (run sample_runtime draining_run init)) ! 0) = Returned
   \<and> calls (step sample_runtime
         (FetchSettles 0 (Response False ''Internal Server Error'') 1700000002500)
         (run sample_runtime draining_run init)) ! 1
       = new_call (make_id 1700000002000 ''p07zzm'', sample_file)
   \<and> processingQueue (step sample_runtime
         (FetchSettles 0 (Response False ''Internal Server Error'') 1700000002500)
         (run sample_runtime draining_run init)) = []
   \<and> isProcessing (step sample_runtime
         (FetchSettles 0 (Response False ''Internal Server Error'') 1700000002500)
         (run sample_runtime draining_run init))"
proof -
  have h1: "isProcessing busy_state"
    by (simp add: busy_state_def run_defs)
  have q0: "processingQueue busy_state = []"
    by (simp add: busy_state_def run_defs)
  have nd: "map doc_item (newDocs second_batch) = [(make_id 1700000002000 ''p07zzm'', sample_file)]"
    by (simp add: second_batch_def newDocs_def new_doc_def doc_item_def)
  note t = queue_serializes [where s = busy_state and now = 1700000002001 and files = second_batch]
  note t1 = t [THEN conjunct1]
  note t4 = t [THEN conjunct2, THEN conjunct2, THEN conjunct2, THEN conjunct1]
  have c1: "processQueue 1700000002001 busy_state = busy_state"
    using t1 h1 by simp
  have c2: "calls (addFiles second_batch 1700000002001 busy_state) = calls busy_state
     \<and> processingQueue (addFiles second_batch 1700000002001 busy_state)
       = [(make_id 1700000002000 ''p07zzm'', sample_file)]"
    using t4 h1 q0 nd by simp
  note u = queue_serializes [where s = "addFiles second_batch 1700000002001 busy_state"
      and now = 1700000003000 and item = "(make_id 1700000002000 ''p07zzm'', sample_file)"
      and rest = "[]"]
  note u5 = u [THEN conjunct2, THEN conjunct2, THEN conjunct2, THEN conjunct2, THEN conjunct1]
  have c3: "calls (processQueue_loop 1700000003000 (addFiles second_batch 1700000002001 busy_state))
       = calls busy_state @ [new_call (make_id 1700000002000 ''p07zzm'', sample_file)]"
    using u5 c2 by simp
  note v = queue_serializes [where rt = sample_runtime and evs = draining_run and c = 0
      and fo = "Response False ''Internal Server Error''" and now = 1700000002500
      and ev = "FetchSettles 0 (Response False ''Internal Server Error'') 1700000002500"]
  note v6 = v [THEN conjunct2, THEN conjunct2, THEN conjunct2, THEN conjunct2, THEN conjunct2,
      THEN conjunct1]
  note v8 = v [THEN conjunct2, THEN conjunct2, THEN conjunct2, THEN conjunct2, THEN conjunct2,
      THEN conjunct2, THEN conjunct2]
  have h2: "(0::nat) < length (calls (run sample_runtime draining_run init))"
    and h3: "c_main (calls (run sample_runtime draining_run init) ! 0) = AwaitFetch"
    by (simp_all add: draining_state(1))
  note h4 = draining_state(2)
  have len: "length (calls (run sample_runtime draining_run init)) = 1"
    by (simp add: draining_state(1))
  have c4: "c_main (calls (step sample_runtime
         (FetchSettles 0 (Response False ''Internal Server Error'') 1700000002500)
         (run sample_runtime draining_run init)) ! 0) = Returned"
    using v6 h2 h3 by simp
  have c5: "calls (step sample_runtime
         (FetchSettles 0 (Response False ''Internal Server Error'') 1700000002500)
         (run sample_runtime draining_run init)) ! 1
       = new_call (make_id 1700000002000 ''p07zzm'', sample_file)
     \<and> processingQueue (step sample_runtime
         (FetchSettles 0 (Response False ''Internal Server Error'') 1700000002500)
         (run sample_runtime draining_run init)) = []
     \<and> isProcessing (step sample_runtime
         (FetchSettles 0 (Response False ''Internal Server Error'') 1700000002500)
         (run sample_runtime draining_run init))"
    using v8 h2 h3 c4 by (simp add: h4 len draining_state(3))
  show ?thesis
    using h1 c1 c2 c3 h2 h3 h4 c4 c5 by simp
qed

section \<open>Properties of adding files\<close>

subsection \<open>Identifiers\<close>

lemma below_ten: "n < 10 \<Longrightarrow> n \<in> {0, 1, 2, 3, 4, 5, 6, 7, 8, 9 :: nat}"
  by auto

lemma digit_char_inj: "a < 10 \<Longrightarrow> b < 10 \<Longrightarrow> digit_char a = digit_char b \<Longrightarrow> a = b"
  using below_ten [of a] below_ten [of b]
  by (auto simp: digit_char_def)

lemma digit_char_not_hyphen: "a < 10 \<Longrightarrow> CHR ''-'' \<noteq> digit_char a"
  using below_ten [of a] by (auto simp: digit_char_def)

lemma show_nat_not_Nil: "show_nat n \<noteq> []"
  by (subst show_nat.simps) simp

lemma show_nat_no_hyphen: "CHR ''-'' \<notin> set (show_nat n)"
proof (induction n rule: show_nat.induct)
  case (1 n)
  show ?case
  proof (cases "n < 10")
    case True
    then show ?thesis
      by (subst show_nat.simps) (simp add: digit_char_not_hyphen)
  next
    case False
    with 1 show ?thesis
      by (subst show_nat.simps) (simp add: digit_char_not_hyphen)
  qed
qed

lemma show_nat_inj: "show_nat m = show_nat n \<Longrightarrow> m = n"
proof (induction m arbitrary: n rule: show_nat.induct)
  case (1 m)
  show ?case
  proof (cases "m < 10")
    case m: True
    show ?thesis
    proof (cases "n < 10")
      case True
      with m 1(2) show ?thesis
        by (simp add: show_nat.simps [of m] show_nat.simps [of n] digit_char_inj)
    next
      case False
      with m 1(2) show_nat_not_Nil [of "n div 10"] show ?thesis
        by (simp add: show_nat.simps [of m] show_nat.simps [of n] Cons_eq_append_conv)
    qed
  next
    case m: False
    show ?thesis
    proof (cases "n < 10")
      case True
      with m 1(2) show_nat_not_Nil [of "m div 10"] show ?thesis
        by (simp add: show_nat.simps [of m] show_nat.simps [of n] append_eq_Cons_conv)
    next
      case False
      with m 1(2) have e: "show_nat (m div 10) = show_nat (n div 10)"
        and d: "digit_char (m mod 10) = digit_char (n mod 10)"
        by (simp_all add: show_nat.simps [of m] show_nat.simps [of n])
      from 1(1) [OF m e] have "m div 10 = n div 10" .
      moreover from d have "m mod 10 = n mod 10"
        by (simp add: digit_char_inj)
      ultimately show ?thesis
        by (metis div_mult_mod_eq)
    qed
  qed
qed

lemma split_at_first:
  "xs @ c # ys = xs' @ c # ys' \<Longrightarrow> c \<notin> set xs \<Longrightarrow> c \<notin> set xs' \<Longrightarrow> xs = xs' \<and> ys = ys'"
proof (induction xs arbitrary: xs')
  case Nil
  then show ?case by (cases xs') auto
next
  case (Cons a xs)
  then show ?case by (cases xs') auto
qed

lemma make_id_inj: "make_id t r = make_id t' r' \<longleftrightarrow> t = t' \<and> r = r'"
proof
  assume "make_id t r = make_id t' r'"
  then have "show_nat t @ CHR ''-'' # r = show_nat t' @ CHR ''-'' # r'"
    by (simp add: make_id_def)
  from split_at_first [OF this show_nat_no_hyphen show_nat_no_hyphen]
  show "t = t' \<and> r = r'" by (auto dest: show_nat_inj)
qed simp

lemma doc_id_new_doc: "doc_id (new_doc x) = make_id (fst (snd x)) (snd (snd x))"
  by (simp add: new_doc_def split: prod.splits)

lemma newDocs_ids: "map doc_id (newDocs files) = map (\<lambda>p. make_id (fst p) (snd p)) (map snd files)"
  by (simp add: newDocs_def doc_id_new_doc)

lemma distinct_newDocs: "distinct (map doc_id (newDocs files)) \<longleftrightarrow> distinct (map snd files)"
  unfolding newDocs_ids
  by (simp add: distinct_map inj_on_def make_id_inj prod_eq_iff)

subsection \<open>Identity of the records\<close>

lemma keeps_identity_updates:
  "keeps_identity (step_updates k)"
  "keeps_identity (start_updates now)"
  "keeps_identity (catch_updates e)"
  by (simp_all add: keeps_identity_def step_updates_def start_updates_def catch_updates_def
      no_updates_def)

lemma after_json_Inr:
  "after_json rt json now = Inr u \<Longrightarrow> keeps_identity u \<and> u_stage u = Some complete"
  by (auto simp: after_json_def keeps_identity_def no_updates_def
      split: sum.splits if_splits prod.splits)

lemma keeps_identity_settle: "keeps_identity (settle_updates rt out now)"
  by (auto simp: settle_updates_def keeps_identity_updates after_json_Inr
      split: sum.splits body_outcome.splits)

lemma doc_item_spread: "keeps_identity u \<Longrightarrow> doc_item (spread d u) = doc_item d"
  by (simp add: keeps_identity_def doc_item_def spread_def)

lemma doc_item_updateDoc: "keeps_identity u \<Longrightarrow> map doc_item (updateDoc i u ds) = map doc_item ds"
  by (simp add: updateDoc_def doc_item_spread)

lemma doc_id_updateDoc: "keeps_identity u \<Longrightarrow> map doc_id (updateDoc i u ds) = map doc_id ds"
proof -
  assume "keeps_identity u"
  then have "map fst (map doc_item (updateDoc i u ds)) = map fst (map doc_item ds)"
    by (simp only: doc_item_updateDoc)
  then show ?thesis by (simp add: doc_item_def comp_def)
qed

lemma doc_items_loop:
  "map doc_item (documents (processQueue_loop now t)) = map doc_item (documents t)"
proof (cases "processingQueue t")
  case Nil
  then show ?thesis by (simp add: loop_empty)
next
  case (Cons item rest)
  show ?thesis
    by (simp add: loop_cons [OF Cons] doc_item_updateDoc keeps_identity_updates)
qed

lemma doc_items_add:
  "map doc_item (documents (addFiles files now s))
   = map doc_item (documents s) @ map doc_item (newDocs files)"
proof (cases "isProcessing s")
  case True
  from addFiles_busy [OF True, of files now] show ?thesis by simp
next
  case False
  from addFiles_idle [OF False] obtain t
    where "addFiles files now s = processQueue_loop now t"
      "documents t = documents s @ newDocs files"
    by metis
  then show ?thesis by (simp add: doc_items_loop)
qed

lemma doc_ids_add:
  "map doc_id (documents (addFiles files now s))
   = map doc_id (documents s) @ map doc_id (newDocs files)"
proof -
  have "map fst (map doc_item (documents (addFiles files now s)))
        = map fst (map doc_item (documents s) @ map doc_item (newDocs files))"
    by (simp only: doc_items_add)
  then show ?thesis by (simp add: doc_item_def comp_def)
qed

lemma newDocs_nth:
  "k < length files \<Longrightarrow>
   doc_file (newDocs files ! k) = fst (files ! k)
   \<and> doc_id (newDocs files ! k) = make_id (fst (snd (files ! k))) (snd (snd (files ! k)))
   \<and> stage (newDocs files ! k) = queued
   \<and> progress (newDocs files ! k) = 0
   \<and> result (newDocs files ! k) = JNull
   \<and> error_text (newDocs files ! k) = None
   \<and> startedAt (newDocs files ! k) = None
   \<and> completedAt (newDocs files ! k) = None"
  by (simp add: newDocs_def new_doc_def split: prod.splits)

text \<open>
  C7, amended. Every file of a batch receives a record of its own, with stage \<open>queued\<close>,
  progress 0 and \<^verbatim>\<open>null\<close> result, error, start and completion times; the records are
  appended to the registry in the order of the batch. The identifier of a record is the
  clock reading in decimal, a hyphen and the random suffix drawn for the file, and two
  identifiers are equal only for equal readings and equal suffixes. So the identifiers of a
  batch are distinct from each other exactly when the pairs of reading and suffix drawn for
  its files are, and the registry keeps distinct identifiers exactly when, besides, no new
  identifier is one already in it. The code does nothing to exclude a repeated pair.
\<close>

theorem addFiles_new_records:
  "length (newDocs files) = length files
   \<and> (\<forall>k < length files.
         doc_file (newDocs files ! k) = fst (files ! k)
         \<and> doc_id (newDocs files ! k) = make_id (fst (snd (files ! k))) (snd (snd (files ! k)))
         \<and> stage (newDocs files ! k) = queued
         \<and> progress (newDocs files ! k) = 0
         \<and> result (newDocs files ! k) = JNull
         \<and> error_text (newDocs files ! k) = None
         \<and> startedAt (newDocs files ! k) = None
         \<and> completedAt (newDocs files ! k) = None)
   \<and> (make_id t r = make_id t' r' \<longleftrightarrow> t = t' \<and> r = r')
   \<and> (distinct (map doc_id (newDocs files)) \<longleftrightarrow> distinct (map snd files))
   \<and> (isProcessing s \<longrightarrow> documents (addFiles files now s) = documents s @ newDocs files)
   \<and> map doc_id (documents (addFiles files now s))
       = map doc_id (documents s) @ map doc_id (newDocs files)
   \<and> (distinct (map doc_id (documents (addFiles files now s))) \<longleftrightarrow>
        distinct (map doc_id (documents s)) \<and> distinct (map snd files)
        \<and> doc_id ` set (documents s) \<inter> doc_id ` set (newDocs files) = {})"
proof -
  have a: "length (newDocs files) = length files"
    by (simp add: newDocs_def)
  have b: "\<forall>k < length files.
         doc_file (newDocs files ! k) = fst (files ! k)
         \<and> doc_id (newDocs files ! k) = make_id (fst (snd (files ! k))) (snd (snd (files ! k)))
         \<and> stage (newDocs files ! k) = queued
         \<and> progress (newDocs files ! k) = 0
         \<and> result (newDocs files ! k) = JNull
         \<and> error_text (newDocs files ! k) = None
         \<and> startedAt (newDocs files ! k) = None
         \<and> completedAt (newDocs files ! k) = None"
    using newDocs_nth by blast
  have c: "make_id t r = make_id t' r' \<longleftrightarrow> t = t' \<and> r = r'"
    by (rule make_id_inj)
  have d: "distinct (map doc_id (newDocs files)) \<longleftrightarrow> distinct (map snd files)"
    by (rule distinct_newDocs)
  have e: "isProcessing s \<longrightarrow> documents (addFiles files now s) = documents s @ newDocs files"
    using addFiles_busy by blast
  have f: "map doc_id (documents (addFiles files now s))
       = map doc_id (documents s) @ map doc_id (newDocs files)"
    by (rule doc_ids_add)
  have g: "distinct (map doc_id (documents (addFiles files now s))) \<longleftrightarrow>
        distinct (map doc_id (documents s)) \<and> distinct (map snd files)
        \<and> doc_id ` set (documents s) \<inter> doc_id ` set (newDocs files) = {}"
    unfolding f by (simp add: d)
  show ?thesis
    using a b c d e f g by (intro conjI) assumption+
qed

theorem addFiles_new_records_witness:
  "(0::nat) < length two_files
   \<and> stage (newDocs two_files ! 0) = queued
   \<and> progress (newDocs two_files ! 0) = 0
   \<and> result (newDocs two_files ! 0) = JNull
   \<and> isProcessing busy_state
   \<and> documents (addFiles second_batch 1700000002001 busy_state)
       = documents busy_state @ newDocs second_batch
   \<and> distinct (map snd two_files)
   \<and> distinct (map doc_id (newDocs two_files))"
proof -
  note t = addFiles_new_records [where files = two_files]
  note t2 = t [THEN conjunct2, THEN conjunct1]
  note t4 = t [THEN conjunct2, THEN conjunct2, THEN conjunct2, THEN conjunct1]
  note u = addFiles_new_records [where files = second_batch and s = busy_state
      and now = 1700000002001]
  note u5 = u [THEN conjunct2, THEN conjunct2, THEN conjunct2, THEN conjunct2, THEN conjunct1]
  have h1: "(0::nat) < length two_files"
    by (simp add: two_files_def)
  have h2: "isProcessing busy_state"
    by (simp add: busy_state_def run_defs)
  have h3: "distinct (map snd two_files)"
    by (simp add: two_files_def)
  have c1: "stage (newDocs two_files ! 0) = queued \<and> progress (newDocs two_files ! 0) = 0
     \<and> result (newDocs two_files ! 0) = JNull"
    using t2 h1 by simp
  have c2: "documents (addFiles second_batch 1700000002001 busy_state)
       = documents busy_state @ newDocs second_batch"
    using u5 h2 by simp
  have c3: "distinct (map doc_id (newDocs two_files))"
    using t4 h3 by simp
  show ?thesis
    using h1 h2 h3 c1 c2 c3 by simp
qed

text \<open>
  The claim as stated fails when two files of a batch draw the same clock reading and the
  same random suffix: both records get the same identifier.
\<close>

theorem repeated_draw_counterexample:
  "map doc_id (documents (addFiles repeated_draw 1700000000001 init))
     = [make_id 1700000000000 ''k3x9qa'', make_id 1700000000000 ''k3x9qa'']
   \<and> \<not> distinct (map doc_id (documents (addFiles repeated_draw 1700000000001 init)))"
proof -
  have "map doc_id (documents (addFiles repeated_draw 1700000000001 init))
     = [make_id 1700000000000 ''k3x9qa'', make_id 1700000000000 ''k3x9qa'']"
    by (simp add: doc_ids_add init_def repeated_draw_def newDocs_def doc_id_new_doc)
  then show ?thesis by simp
qed

subsection \<open>The registry lists the items\<close>

lemma doc_items_sim:
  "map doc_item (documents (runSimulation c k s)) = map doc_item (documents s)"
  by (simp add: runSimulation_documents doc_item_updateDoc keeps_identity_updates)

lemma doc_items_finish:
  "keeps_identity u \<Longrightarrow> map doc_item (documents (finish c u s)) = map doc_item (documents s)"
  by (simp add: finish_fields doc_item_updateDoc)

lemma doc_items_step:
  "map doc_item (documents (step rt ev s)) = map doc_item (documents s) @ added [ev]"
proof (cases ev)
  case (AddFiles files now)
  then show ?thesis by (simp add: step_def doc_items_add)
next
  case (TimerFires c)
  then show ?thesis
    by (simp add: step_TimerFires doc_items_sim split: sim_phase.splits)
next
  case (FetchSettles c out now)
  show ?thesis
  proof (cases "c < length (calls s) \<and> c_main (calls s ! c) = AwaitFetch")
    case True
    then have c: "c < length (calls s)" and m: "c_main (calls s ! c) = AwaitFetch" by simp_all
    show ?thesis
      unfolding FetchSettles step_FetchSettles [OF c m]
      by (simp add: doc_items_loop doc_items_finish keeps_identity_updates
          split: fetch_outcome.splits bool.splits)
  next
    case False
    then show ?thesis by (simp add: FetchSettles step_disabled)
  qed
next
  case (JsonSettles c out now)
  show ?thesis
  proof (cases "c < length (calls s) \<and> c_main (calls s ! c) = AwaitJson")
    case True
    have "map doc_item (documents (snd (on_json rt c out now s))) = map doc_item (documents s)"
      by (auto simp: on_json_def catch_block_finish doc_items_finish keeps_identity_updates
          set_call_def write_doc_def doc_item_updateDoc after_json_Inr
          split: sum.splits body_outcome.splits)
    with True show ?thesis
      by (simp add: JsonSettles step_def worker_resume_def on_json_never_throws doc_items_loop)
  next
    case False
    then show ?thesis by (simp add: JsonSettles step_disabled)
  qed
next
  case (SelectDoc i)
  then show ?thesis by (simp add: step_def)
qed

lemma doc_items_run:
  "map doc_item (documents (run rt evs s)) = map doc_item (documents s) @ added evs"
proof (induction evs arbitrary: s)
  case Nil
  show ?case by simp
next
  case (Cons ev evs)
  have "added (ev # evs) = added [ev] @ added evs"
    using added_append [of "[ev]" evs] by simp
  then show ?case
    by (simp add: Cons.IH doc_items_step)
qed

lemma items_match_step: "items_match s \<Longrightarrow> items_match (step rt ev s)"
  by (simp add: items_match_def items_step doc_items_step)

lemma items_match_init: "items_match init"
  by (simp add: items_match_def init_def)

lemma doc_ids_of_items: "map doc_id ds = map fst (map doc_item ds)"
  by (simp add: doc_item_def comp_def)

lemma length_documents_step: "length (documents s) \<le> length (documents (step rt ev s))"
proof -
  have "length (map doc_item (documents (step rt ev s)))
        = length (map doc_item (documents s) @ added [ev])"
    by (simp only: doc_items_step)
  then show ?thesis by simp
qed

lemma doc_ids_step:
  "map doc_id (documents (step rt ev s)) = map doc_id (documents s) @ map fst (added [ev])"
  by (simp add: doc_ids_of_items doc_items_step)

lemma doc_ids_run:
  "map doc_id (documents (run rt evs s)) = map doc_id (documents s) @ map fst (added evs)"
  by (simp add: doc_ids_of_items doc_items_run)

text \<open>The record of an invocation, and of a pending item, is the one at its position.\<close>

lemma call_is_record:
  assumes "items_match s" "c < length (calls s)"
  shows "c < length (documents s)"
    and "doc_item (documents s ! c) = call_item (calls s ! c)"
    and "doc_id (documents s ! c) = c_id (calls s ! c)"
proof -
  from assms(1) have e: "map doc_item (documents s) = map call_item (calls s) @ processingQueue s"
    by (simp add: items_match_def)
  then have "length (map doc_item (documents s))
        = length (map call_item (calls s) @ processingQueue s)" by simp
  with assms(2) show len: "c < length (documents s)" by simp
  from e have "map doc_item (documents s) ! c = (map call_item (calls s) @ processingQueue s) ! c"
    by simp
  with len assms(2) show i: "doc_item (documents s ! c) = call_item (calls s ! c)"
    by (simp add: nth_append)
  then show "doc_id (documents s ! c) = c_id (calls s ! c)"
    by (simp add: doc_item_def call_item_def)
qed

lemma pending_is_record:
  assumes "items_match s" "j < length (processingQueue s)"
  shows "length (calls s) + j < length (documents s)"
    and "doc_item (documents s ! (length (calls s) + j)) = processingQueue s ! j"
proof -
  from assms(1) have e: "map doc_item (documents s) = map call_item (calls s) @ processingQueue s"
    by (simp add: items_match_def)
  then have "length (map doc_item (documents s))
        = length (map call_item (calls s) @ processingQueue s)" by simp
  with assms(2) show len: "length (calls s) + j < length (documents s)" by simp
  from e have "map doc_item (documents s) ! (length (calls s) + j)
        = (map call_item (calls s) @ processingQueue s) ! (length (calls s) + j)"
    by simp
  with len show "doc_item (documents s ! (length (calls s) + j)) = processingQueue s ! j"
    by (simp add: nth_append)
qed

subsection \<open>Unshared identifiers\<close>

lemma unshared_iff:
  "unshared ds k \<longleftrightarrow> (\<forall>j < length ds. j \<noteq> k \<longrightarrow> doc_id (ds ! j) \<noteq> doc_id (ds ! k))"
  by (auto simp: unshared_def sharers_def filter_empty_conv)

lemma unsharedD:
  "unshared ds k \<Longrightarrow> j < length ds \<Longrightarrow> doc_id (ds ! j) = doc_id (ds ! k) \<Longrightarrow> j = k"
  by (auto simp: unshared_iff)

lemma unshared_prefix:
  assumes "map doc_id ds' = map doc_id ds @ xs" "k < length ds" "unshared ds' k"
  shows "unshared ds k"
  unfolding unshared_iff
proof (intro allI impI)
  fix j assume j: "j < length ds" "j \<noteq> k"
  from assms(1) have "length (map doc_id ds') = length (map doc_id ds @ xs)" by simp
  then have len: "length ds \<le> length ds'" by simp
  have same: "doc_id (ds' ! i) = doc_id (ds ! i)" if "i < length ds" for i
  proof -
    from assms(1) have "map doc_id ds' ! i = (map doc_id ds @ xs) ! i" by simp
    with that len show ?thesis by (simp add: nth_append)
  qed
  from j(1) len have "j < length ds'" by simp
  with assms(3) j(2) have "doc_id (ds' ! j) \<noteq> doc_id (ds' ! k)"
    by (simp add: unshared_iff)
  with same [OF j(1)] same [OF assms(2)] show "doc_id (ds ! j) \<noteq> doc_id (ds ! k)" by simp
qed

lemma unshared_same_ids:
  assumes "map doc_id ds' = map doc_id ds" "k < length ds" "unshared ds' k"
  shows "unshared ds k"
  by (rule unshared_prefix [of ds' ds "[]"]) (simp_all add: assms)

lemma unshared_updateDoc:
  "keeps_identity u \<Longrightarrow> k < length ds \<Longrightarrow> unshared ds k \<Longrightarrow> unshared (updateDoc i u ds) k"
  by (rule unshared_same_ids [of ds "updateDoc i u ds"])
     (simp_all add: doc_id_updateDoc updateDoc_length)

subsection \<open>Terminal records belong to returned invocations\<close>

lemma script_not_terminal: "k < length STAGE_FLOW \<Longrightarrow> \<not> terminal (step_stage (STAGE_FLOW ! k))"
proof -
  have "\<forall>x \<in> set STAGE_FLOW. \<not> terminal (step_stage x)"
    by (simp add: STAGE_FLOW_def terminal_def)
  then show "k < length STAGE_FLOW \<Longrightarrow> \<not> terminal (step_stage (STAGE_FLOW ! k))"
    by simp
qed

lemma stage_spread: "u_stage u = Some st \<Longrightarrow> stage (spread d u) = st"
  by (simp add: spread_def)

lemma doc_id_spread: "keeps_identity u \<Longrightarrow> doc_id (spread d u) = doc_id d"
  by (simp add: spread_def keeps_identity_def)

lemma result_spread: "u_result u = None \<Longrightarrow> result (spread d u) = result d"
  by (simp add: spread_def)

lemma terminal_settled: "terminal (stage d) \<Longrightarrow> settled d"
  by (simp add: settled_def)

lemma returned_kept_refl: "returned_kept cs cs"
  by (simp add: returned_kept_def)

lemma returned_kept_trans: "returned_kept a b \<Longrightarrow> returned_kept b c \<Longrightarrow> returned_kept a c"
  unfolding returned_kept_def by fastforce

lemma returned_kept_update:
  "c_id x = c_id (cs ! c) \<Longrightarrow> c_main (cs ! c) = Returned \<longrightarrow> c_main x = Returned \<Longrightarrow>
   returned_kept cs (cs[c := x])"
  unfolding returned_kept_def
proof (intro allI impI)
  fix j assume a: "c_id x = c_id (cs ! c)" "c_main (cs ! c) = Returned \<longrightarrow> c_main x = Returned"
    and j: "j < length cs" "c_main (cs ! j) = Returned"
  show "j < length (cs[c := x]) \<and> c_main (cs[c := x] ! j) = Returned
        \<and> c_id (cs[c := x] ! j) = c_id (cs ! j)"
    using a j by (cases "j = c") simp_all
qed

lemma returned_kept_append: "returned_kept cs (cs @ xs)"
  by (simp add: returned_kept_def nth_append)

text \<open>A write keeps the invariant when the records it settles have an owner.\<close>

lemma terminal_owned_write:
  assumes "terminal_owned s"
    and "documents s' = updateDoc i u (documents s)"
    and "keeps_identity u"
    and "u_stage u = Some st"
    and "terminal st \<or> u_result u \<noteq> None \<Longrightarrow>
           \<exists>c < length (calls s'). c_main (calls s' ! c) = Returned \<and> c_id (calls s' ! c) = i"
    and "returned_kept (calls s) (calls s')"
  shows "terminal_owned s'"
  unfolding terminal_owned_def
proof (intro ballI impI)
  fix d' assume d': "d' \<in> set (documents s')" and t: "settled d'"
  from d' assms(2) obtain d where d: "d \<in> set (documents s)"
    and e: "d' = (if doc_id d = i then spread d u else d)"
    by (auto simp: updateDoc_def)
  have old: "\<exists>c < length (calls s'). c_main (calls s' ! c) = Returned \<and> c_id (calls s' ! c) = doc_id d"
    if "settled d"
  proof -
    from that d assms(1) obtain c where c: "c < length (calls s)" "c_main (calls s ! c) = Returned"
      "c_id (calls s ! c) = doc_id d"
      unfolding terminal_owned_def by blast
    with assms(6) have "c < length (calls s') \<and> c_main (calls s' ! c) = Returned
        \<and> c_id (calls s' ! c) = c_id (calls s ! c)"
      by (simp add: returned_kept_def)
    with c(3) show ?thesis by auto
  qed
  show "\<exists>c < length (calls s'). c_main (calls s' ! c) = Returned \<and> c_id (calls s' ! c) = doc_id d'"
  proof (cases "doc_id d = i")
    case True
    with e have s: "d' = spread d u" by simp
    with assms(3) True have id: "doc_id d' = i" by (simp add: doc_id_spread)
    show ?thesis
    proof (cases "terminal st \<or> u_result u \<noteq> None")
      case True
      from assms(5) [OF this] id show ?thesis by simp
    next
      case False
      with s assms(4) have "stage d' = st" "result d' = result d" "\<not> terminal st"
        by (simp_all add: stage_spread result_spread)
      with t have "settled d" by (simp add: settled_def)
      from old [OF this] id True show ?thesis by simp
    qed
  next
    case False
    with e have same: "d' = d" by simp
    with t old show ?thesis by simp
  qed
qed

lemma terminal_owned_calls:
  assumes "terminal_owned s" "documents s' = documents s" "returned_kept (calls s) (calls s')"
  shows "terminal_owned s'"
  unfolding terminal_owned_def
proof (intro ballI impI)
  fix d assume "d \<in> set (documents s')" and "settled d"
  with assms(1,2) obtain c where c: "c < length (calls s)" "c_main (calls s ! c) = Returned"
      "c_id (calls s ! c) = doc_id d"
    unfolding terminal_owned_def by auto
  with assms(3) have "c < length (calls s') \<and> c_main (calls s' ! c) = Returned
        \<and> c_id (calls s' ! c) = c_id (calls s ! c)"
    by (simp add: returned_kept_def)
  with c(3) show "\<exists>c < length (calls s'). c_main (calls s' ! c) = Returned
        \<and> c_id (calls s' ! c) = doc_id d"
    by auto
qed

lemma terminal_owned_init: "terminal_owned init"
  by (simp add: terminal_owned_def init_def)

lemma terminal_owned_sim: "terminal_owned s \<Longrightarrow> terminal_owned (runSimulation c k s)"
proof -
  assume to: "terminal_owned s"
  have rk: "returned_kept (calls s) (calls (runSimulation c k s))"
    unfolding runSimulation_calls by (rule returned_kept_update) simp_all
  show ?thesis
  proof (cases "sim_writes c k s")
    case True
    then have k: "k < length STAGE_FLOW" by (simp add: sim_writes_def)
    show ?thesis
    proof (rule terminal_owned_write [OF to _ keeps_identity_updates(1) _ _ rk])
      show "documents (runSimulation c k s)
            = updateDoc (c_id (calls s ! c)) (step_updates k) (documents s)"
        using True by (simp add: runSimulation_documents)
      show "u_stage (step_updates k) = Some (step_stage (STAGE_FLOW ! k))"
        by (simp add: step_updates_def no_updates_def)
      show "terminal (step_stage (STAGE_FLOW ! k)) \<or> u_result (step_updates k) \<noteq> None \<Longrightarrow>
            \<exists>c' < length (calls (runSimulation c k s)).
               c_main (calls (runSimulation c k s) ! c') = Returned
               \<and> c_id (calls (runSimulation c k s) ! c') = c_id (calls s ! c)"
        using script_not_terminal [OF k] by (simp add: step_updates_def no_updates_def)
    qed
  next
    case False
    then have "documents (runSimulation c k s) = documents s"
      by (simp add: runSimulation_documents)
    from terminal_owned_calls [OF to this rk] show ?thesis .
  qed
qed

lemma u_stage_final:
  "\<exists>st. u_stage (catch_updates e) = Some st"
  "\<exists>st. u_stage (settle_updates rt out now) = Some st"
  by (auto simp: catch_updates_def no_updates_def settle_updates_def after_json_Inr
      split: sum.splits body_outcome.splits)

lemma terminal_owned_finish:
  assumes "terminal_owned s" "c < length (calls s)" "keeps_identity u" "u_stage u = Some st"
  shows "terminal_owned (finish c u s)"
proof (rule terminal_owned_write [OF assms(1) _ assms(3,4)])
  show "documents (finish c u s) = updateDoc (c_id (calls s ! c)) u (documents s)"
    by (simp add: finish_fields)
  show "\<exists>c' < length (calls (finish c u s)). c_main (calls (finish c u s) ! c') = Returned
        \<and> c_id (calls (finish c u s) ! c') = c_id (calls s ! c)"
    using assms(2) by (intro exI [of _ c]) (simp add: finish_fields)
  show "returned_kept (calls s) (calls (finish c u s))"
    unfolding finish_fields by (rule returned_kept_update) simp_all
qed

lemma terminal_owned_loop: "terminal_owned t \<Longrightarrow> terminal_owned (processQueue_loop now t)"
proof (cases "processingQueue t")
  case Nil
  assume "terminal_owned t"
  with Nil show ?thesis by (simp add: loop_empty terminal_owned_def)
next
  case (Cons item rest)
  assume to: "terminal_owned t"
  let ?m = "t\<lparr>documents := updateDoc (fst item) (start_updates now) (documents t)\<rparr>"
  have m: "terminal_owned ?m"
  proof (rule terminal_owned_write [OF to _ keeps_identity_updates(2)])
    show "documents ?m = updateDoc (fst item) (start_updates now) (documents t)" by simp
    show "u_stage (start_updates now) = Some rotation_check"
      by (simp add: start_updates_def no_updates_def)
    show "terminal rotation_check \<or> u_result (start_updates now) \<noteq> None \<Longrightarrow>
          \<exists>c < length (calls ?m). c_main (calls ?m ! c) = Returned \<and> c_id (calls ?m ! c) = fst item"
      by (simp add: terminal_def start_updates_def no_updates_def)
    show "returned_kept (calls t) (calls ?m)" by (simp add: returned_kept_refl)
  qed
  show ?thesis
  proof (rule terminal_owned_write [OF m _ keeps_identity_updates(1)])
    show "documents (processQueue_loop now t)
          = updateDoc (fst item) (step_updates 0) (documents ?m)"
      by (simp add: loop_cons [OF Cons])
    show "u_stage (step_updates 0) = Some (step_stage (STAGE_FLOW ! 0))"
      by (simp add: step_updates_def no_updates_def)
    show "terminal (step_stage (STAGE_FLOW ! 0)) \<or> u_result (step_updates 0) \<noteq> None \<Longrightarrow>
          \<exists>c < length (calls (processQueue_loop now t)).
             c_main (calls (processQueue_loop now t) ! c) = Returned
             \<and> c_id (calls (processQueue_loop now t) ! c) = fst item"
      using script_not_terminal [of 0] by (simp add: STAGE_FLOW_def step_updates_def no_updates_def)
    show "returned_kept (calls ?m) (calls (processQueue_loop now t))"
      by (simp add: loop_cons [OF Cons] returned_kept_append)
  qed
qed

lemma terminal_owned_append:
  assumes "terminal_owned s" "documents t = documents s @ newDocs files" "calls t = calls s"
  shows "terminal_owned t"
  unfolding terminal_owned_def
proof (intro ballI impI)
  fix d assume d: "d \<in> set (documents t)" and tm: "settled d"
  have "\<not> settled x" if "x \<in> set (newDocs files)" for x
    using that by (auto simp: newDocs_def new_doc_def terminal_def settled_def)
  with d tm assms(2) have "d \<in> set (documents s)" by auto
  with tm assms(1,3) show "\<exists>c < length (calls t). c_main (calls t ! c) = Returned
      \<and> c_id (calls t ! c) = doc_id d"
    by (simp add: terminal_owned_def)
qed

lemma terminal_owned_add: "terminal_owned s \<Longrightarrow> terminal_owned (addFiles files now s)"
proof (cases "isProcessing s")
  case True
  assume to: "terminal_owned s"
  from addFiles_busy [OF True, of files now] have
    "documents (addFiles files now s) = documents s @ newDocs files"
    "calls (addFiles files now s) = calls s" by simp_all
  from terminal_owned_append [OF to this] show ?thesis .
next
  case False
  assume to: "terminal_owned s"
  from addFiles_idle [OF False] obtain t
    where t: "addFiles files now s = processQueue_loop now t" "calls t = calls s"
      "documents t = documents s @ newDocs files"
    by metis
  from terminal_owned_append [OF to t(3,2)] have "terminal_owned t" .
  then show ?thesis unfolding t(1) by (rule terminal_owned_loop)
qed

lemma terminal_owned_step:
  assumes "single_flight s" "terminal_owned s"
  shows "terminal_owned (step rt ev s)"
proof (cases ev)
  case (AddFiles files now)
  with assms(2) show ?thesis by (simp add: step_def terminal_owned_add)
next
  case (TimerFires c)
  with assms(2) show ?thesis
    by (simp add: step_TimerFires terminal_owned_sim split: sim_phase.splits)
next
  case (FetchSettles c out now)
  show ?thesis
  proof (cases "c < length (calls s) \<and> c_main (calls s ! c) = AwaitFetch")
    case True
    then have c: "c < length (calls s)" and m: "c_main (calls s ! c) = AwaitFetch" by simp_all
    let ?a = "s\<lparr>calls := (calls s)[c := (calls s ! c)\<lparr>isSimulationRunning := False,
                                                       c_main := AwaitJson\<rparr>]\<rparr>"
    have "returned_kept (calls s) (calls ?a)"
      using m by (simp add: returned_kept_update)
    then have a: "terminal_owned ?a"
      by (rule terminal_owned_calls [OF assms(2), rotated]) simp
    obtain st where st: "u_stage (catch_updates (fetch_error out)) = Some st"
      using u_stage_final(1) by blast
    have f: "terminal_owned (processQueue_loop now (finish c (catch_updates (fetch_error out)) s))"
      by (rule terminal_owned_loop)
         (rule terminal_owned_finish [OF assms(2) c keeps_identity_updates(3) st])
    show ?thesis
      unfolding FetchSettles step_FetchSettles [OF c m]
      using a f by (auto split: fetch_outcome.splits bool.splits)
  next
    case False
    with assms(2) show ?thesis by (simp add: FetchSettles step_disabled)
  qed
next
  case (JsonSettles c out now)
  show ?thesis
  proof (cases "c < length (calls s) \<and> c_main (calls s ! c) = AwaitJson")
    case True
    then have c: "c < length (calls s)" and m: "c_main (calls s ! c) = AwaitJson" by simp_all
    from assms(1) c m have f: "\<not> isSimulationRunning (calls s ! c)"
      by (auto simp: single_flight_def)
    obtain st where st: "u_stage (settle_updates rt out now) = Some st"
      using u_stage_final(2) by blast
    show ?thesis
      unfolding JsonSettles step_JsonSettles [OF c m f]
      by (rule terminal_owned_loop)
         (rule terminal_owned_finish [OF assms(2) c keeps_identity_settle st])
  next
    case False
    with assms(2) show ?thesis by (simp add: JsonSettles step_disabled)
  qed
next
  case (SelectDoc i)
  with assms(2) show ?thesis by (simp add: step_def terminal_owned_def)
qed

subsection \<open>Terminal records stay as they are\<close>

lemma stable_update: "k < length ds \<Longrightarrow> doc_id (ds ! k) \<noteq> i \<Longrightarrow> updateDoc i u ds ! k = ds ! k"
  by (simp add: updateDoc_def)

lemma owner_of_settled:
  assumes "terminal_owned s" "k < length (documents s)" "settled (documents s ! k)"
  obtains c where "c < length (calls s)" "c_main (calls s ! c) = Returned"
    "c_id (calls s ! c) = doc_id (documents s ! k)"
proof -
  from assms(2) have "documents s ! k \<in> set (documents s)" by simp
  with assms(1,3) show thesis
    using that unfolding terminal_owned_def by blast
qed

text \<open>A settled record with an unshared identifier is the record of its own invocation,
  which has returned.\<close>

lemma owner_is_self:
  assumes "items_match s" "terminal_owned s" "k < length (documents s)"
    and "unshared (documents s) k" "settled (documents s ! k)"
  shows "k < length (calls s)" and "c_main (calls s ! k) = Returned"
proof -
  from owner_of_settled [OF assms(2,3,5)] obtain c where c: "c < length (calls s)"
    "c_main (calls s ! c) = Returned" "c_id (calls s ! c) = doc_id (documents s ! k)"
    by blast
  note r = call_is_record [OF assms(1) c(1)]
  from r(3) c(3) have "doc_id (documents s ! c) = doc_id (documents s ! k)" by simp
  from unsharedD [OF assms(4) r(1) this] have "c = k" .
  with c show "k < length (calls s)" and "c_main (calls s ! k) = Returned" by simp_all
qed

lemma stable_against_call:
  assumes "items_match s" "terminal_owned s" "unshared (documents s) k"
    and "c < length (calls s)" "c_main (calls s ! c) \<noteq> Returned"
    and "k < length (documents s)" "settled (documents s ! k)"
  shows "updateDoc (c_id (calls s ! c)) u (documents s) ! k = documents s ! k"
proof -
  note o = owner_is_self [OF assms(1,2,6,3,7)]
  from o(2) assms(5) have ne: "c \<noteq> k" by auto
  note r = call_is_record [OF assms(1,4)]
  have "doc_id (documents s ! k) \<noteq> c_id (calls s ! c)"
  proof
    assume "doc_id (documents s ! k) = c_id (calls s ! c)"
    with r(3) have "doc_id (documents s ! c) = doc_id (documents s ! k)" by simp
    from unsharedD [OF assms(3) r(1) this] ne show False by simp
  qed
  with assms(6) show ?thesis by (simp add: stable_update)
qed

lemma stable_sim:
  assumes "single_flight s" "items_match s" "terminal_owned s"
    and "unshared (documents s) k" "c < length (calls s)"
    and "k < length (documents s)" "settled (documents s ! k)"
  shows "documents (runSimulation c j s) ! k = documents s ! k"
proof (cases "sim_writes c j s")
  case True
  then have "isSimulationRunning (calls s ! c)" by (simp add: sim_writes_def)
  with assms(1,5) have "c_main (calls s ! c) = AwaitFetch"
    by (simp add: single_flight_def)
  then have "c_main (calls s ! c) \<noteq> Returned" by simp
  from stable_against_call [OF assms(2,3,4,5) this assms(6,7)] True
  show ?thesis by (simp add: runSimulation_documents)
next
  case False
  then show ?thesis by (simp add: runSimulation_documents)
qed

lemma stable_finish:
  assumes "items_match s" "terminal_owned s" "unshared (documents s) k"
    and "c < length (calls s)" "c_main (calls s ! c) \<noteq> Returned"
    and "k < length (documents s)" "settled (documents s ! k)"
  shows "documents (finish c u s) ! k = documents s ! k"
  using stable_against_call [OF assms] by (simp add: finish_fields)

lemma stable_loop:
  assumes "items_match t" "terminal_owned t" "unshared (documents t) k"
    and "k < length (documents t)" "settled (documents t ! k)"
  shows "documents (processQueue_loop now t) ! k = documents t ! k"
proof (cases "processingQueue t")
  case Nil
  then show ?thesis by (simp add: loop_empty)
next
  case (Cons item rest)
  note o = owner_is_self [OF assms(1,2,4,3,5)]
  have "0 < length (processingQueue t)" by (simp add: Cons)
  from pending_is_record [OF assms(1) this] Cons
  have p: "length (calls t) < length (documents t)"
    "doc_id (documents t ! length (calls t)) = fst item"
    by (simp_all add: doc_item_def prod_eq_iff)
  have ne: "doc_id (documents t ! k) \<noteq> fst item"
  proof
    assume "doc_id (documents t ! k) = fst item"
    with p(2) have "doc_id (documents t ! length (calls t)) = doc_id (documents t ! k)" by simp
    from unsharedD [OF assms(3) p(1) this] o(1) show False by simp
  qed
  have one: "updateDoc (fst item) (start_updates now) (documents t) ! k = documents t ! k"
    using assms(4) ne by (simp add: stable_update)
  have "updateDoc (fst item) (step_updates 0)
          (updateDoc (fst item) (start_updates now) (documents t)) ! k
        = updateDoc (fst item) (start_updates now) (documents t) ! k"
    using assms(4) ne one by (simp add: stable_update updateDoc_length)
  with one show ?thesis by (simp add: loop_cons [OF Cons])
qed

lemma items_match_finish:
  "items_match s \<Longrightarrow> keeps_identity u \<Longrightarrow> items_match (finish c u s)"
  by (simp add: items_match_def items_finish doc_items_finish)

lemma doc_ids_finish:
  "keeps_identity u \<Longrightarrow> map doc_id (documents (finish c u s)) = map doc_id (documents s)"
  by (simp add: finish_fields doc_id_updateDoc)

lemma unshared_finish:
  "keeps_identity u \<Longrightarrow> k < length (documents s) \<Longrightarrow> unshared (documents s) k
   \<Longrightarrow> unshared (documents (finish c u s)) k"
  by (simp add: finish_fields unshared_updateDoc)

lemma stable_finish_loop:
  assumes "items_match s" "terminal_owned s" "unshared (documents s) k"
    and "c < length (calls s)" "c_main (calls s ! c) \<noteq> Returned"
    and "keeps_identity u" "u_stage u = Some st"
    and "k < length (documents s)" "settled (documents s ! k)"
  shows "documents (processQueue_loop now (finish c u s)) ! k = documents s ! k"
proof -
  let ?t = "finish c u s"
  have same: "documents ?t ! k = documents s ! k"
    by (rule stable_finish [OF assms(1,2,3,4,5,8,9)])
  have len: "k < length (documents ?t)"
    using assms(8) by (simp add: finish_fields updateDoc_length)
  have "documents (processQueue_loop now ?t) ! k = documents ?t ! k"
  proof (rule stable_loop)
    show "items_match ?t" by (rule items_match_finish [OF assms(1,6)])
    show "terminal_owned ?t" by (rule terminal_owned_finish [OF assms(2,4,6,7)])
    show "unshared (documents ?t) k" by (rule unshared_finish [OF assms(6,8,3)])
    show "k < length (documents ?t)" by (rule len)
    show "settled (documents ?t ! k)" using assms(9) by (simp add: same)
  qed
  with same show ?thesis by simp
qed

lemma stable_add:
  assumes "single_flight s" "items_match s" "terminal_owned s"
    and "unshared (documents (addFiles files now s)) k"
    and "k < length (documents s)" "settled (documents s ! k)"
  shows "documents (addFiles files now s) ! k = documents s ! k"
proof (cases "isProcessing s")
  case True
  from addFiles_busy [OF True, of files now] assms(5) show ?thesis
    by (simp add: nth_append)
next
  case False
  from addFiles_idle [OF False] obtain t
    where t: "addFiles files now s = processQueue_loop now t" "calls t = calls s"
      "processingQueue t = processingQueue s @ map doc_item (newDocs files)"
      "documents t = documents s @ newDocs files"
    by metis
  have same: "documents t ! k = documents s ! k"
    using assms(5) by (simp add: t(4) nth_append)
  have len: "k < length (documents t)" using assms(5) by (simp add: t(4))
  have "documents (processQueue_loop now t) ! k = documents t ! k"
  proof (rule stable_loop)
    show "items_match t"
      using assms(2) by (simp add: items_match_def t(2,3,4))
    show "terminal_owned t" by (rule terminal_owned_append [OF assms(3) t(4,2)])
    have "map doc_id (documents (processQueue_loop now t)) = map doc_id (documents t)"
      by (simp add: doc_ids_of_items doc_items_loop)
    from unshared_same_ids [OF this len] assms(4)
    show "unshared (documents t) k" by (simp add: t(1))
    show "k < length (documents t)" by (rule len)
    show "settled (documents t ! k)" using assms(6) by (simp add: same)
  qed
  with same show ?thesis by (simp add: t(1))
qed

lemma stable_step:
  assumes "single_flight s" "items_match s" "terminal_owned s"
    and "unshared (documents (step rt ev s)) k"
    and "k < length (documents s)" "settled (documents s ! k)"
  shows "documents (step rt ev s) ! k = documents s ! k"
proof -
  note d = unshared_prefix [OF doc_ids_step assms(5,4)]
  show ?thesis
  proof (cases ev)
    case (AddFiles files now)
    with assms show ?thesis by (simp add: step_def stable_add)
  next
    case (TimerFires c)
    then show ?thesis
      using stable_sim [OF assms(1,2,3) d _ assms(5,6)]
      by (simp add: step_TimerFires split: sim_phase.splits)
  next
    case (FetchSettles c out now)
    show ?thesis
    proof (cases "c < length (calls s) \<and> c_main (calls s ! c) = AwaitFetch")
      case True
      then have c: "c < length (calls s)" and m: "c_main (calls s ! c) = AwaitFetch" by simp_all
      from m have nr: "c_main (calls s ! c) \<noteq> Returned" by simp
      obtain st where st: "u_stage (catch_updates (fetch_error out)) = Some st"
        using u_stage_final(1) by blast
      note f = stable_finish_loop [OF assms(2,3) d c nr keeps_identity_updates(3) st assms(5,6)]
      show ?thesis
        unfolding FetchSettles step_FetchSettles [OF c m]
        using f by (auto split: fetch_outcome.splits bool.splits)
    next
      case False
      then show ?thesis by (simp add: FetchSettles step_disabled)
    qed
  next
    case (JsonSettles c out now)
    show ?thesis
    proof (cases "c < length (calls s) \<and> c_main (calls s ! c) = AwaitJson")
      case True
      then have c: "c < length (calls s)" and m: "c_main (calls s ! c) = AwaitJson" by simp_all
      from m have nr: "c_main (calls s ! c) \<noteq> Returned" by simp
      from assms(1) c m have f: "\<not> isSimulationRunning (calls s ! c)"
        by (auto simp: single_flight_def)
      obtain st where st: "u_stage (settle_updates rt out now) = Some st"
        using u_stage_final(2) by blast
      show ?thesis
        unfolding JsonSettles step_JsonSettles [OF c m f]
        by (rule stable_finish_loop [OF assms(2,3) d c nr keeps_identity_settle st assms(5,6)])
    next
      case False
      then show ?thesis by (simp add: JsonSettles step_disabled)
    qed
  next
    case (SelectDoc i)
    then show ?thesis by (simp add: step_def)
  qed
qed

lemma stable_run:
  assumes "single_flight s" "items_match s" "terminal_owned s"
    and "unshared (documents (run rt evs s)) k"
    and "k < length (documents s)" "settled (documents s ! k)"
  shows "documents (run rt evs s) ! k = documents s ! k"
  using assms
proof (induction evs arbitrary: s)
  case Nil
  show ?case by simp
next
  case (Cons ev evs)
  let ?s = "step rt ev s"
  from Cons.prems(4) have dr: "unshared (documents (run rt evs ?s)) k" by simp
  have len: "k < length (documents ?s)"
    using Cons.prems(5) length_documents_step [of s rt ev] by simp
  from unshared_prefix [OF doc_ids_run len dr] have ds: "unshared (documents ?s) k" .
  have same: "documents ?s ! k = documents s ! k"
    by (rule stable_step [OF Cons.prems(1,2,3) ds Cons.prems(5,6)])
  have "documents (run rt evs ?s) ! k = documents ?s ! k"
  proof (rule Cons.IH [OF _ _ _ dr len])
    show "single_flight ?s" by (rule single_flight_step [OF Cons.prems(1)])
    show "items_match ?s" by (rule items_match_step [OF Cons.prems(2)])
    show "terminal_owned ?s" by (rule terminal_owned_step [OF Cons.prems(1,3)])
    show "settled (documents ?s ! k)" using Cons.prems(6) by (simp add: same)
  qed
  with same show ?case by simp
qed

lemma run_append: "run rt (evs @ evs') s = run rt evs' (run rt evs s)"
  by (induction evs arbitrary: s) simp_all

lemma items_match_run: "items_match s \<Longrightarrow> items_match (run rt evs s)"
  by (induction evs arbitrary: s) (simp_all add: items_match_step)

lemma terminal_owned_run:
  "single_flight s \<Longrightarrow> terminal_owned s \<Longrightarrow> terminal_owned (run rt evs s)"
  by (induction evs arbitrary: s) (simp_all add: terminal_owned_step single_flight_step)

lemma terminal_records_stable:
  assumes "k < length (documents (run rt evs init))"
    and "terminal (stage (documents (run rt evs init) ! k))"
    and "unshared (documents (run rt (evs @ evs') init)) k"
  shows "documents (run rt (evs @ evs') init) ! k = documents (run rt evs init) ! k"
  unfolding run_append
proof (rule stable_run)
  show "single_flight (run rt evs init)" by (rule single_flight_run [OF single_flight_init])
  show "items_match (run rt evs init)" by (rule items_match_run [OF items_match_init])
  show "terminal_owned (run rt evs init)"
    by (rule terminal_owned_run [OF single_flight_init terminal_owned_init])
  show "unshared (documents (run rt evs' (run rt evs init))) k"
    using assms(3) by (simp add: run_append)
  show "settled (documents (run rt evs init) ! k)"
    by (rule terminal_settled [OF assms(2)])
qed (rule assms(1))

subsection \<open>Nothing is written after the final write\<close>

lemma final_write_by_call: "final_write e c \<Longrightarrow> by_call e c"
  by (simp add: final_write_def by_call_def)

lemma quiet_Cons:
  "quiet_after_final (e # es) \<longleftrightarrow>
     (\<forall>c. final_write e c \<longrightarrow> (\<forall>e' \<in> set es. \<not> by_call e' c)) \<and> quiet_after_final es"
  by (cases "fst e") (auto simp: final_write_def)

lemma quiet_append:
  "quiet_after_final (l @ new) \<longleftrightarrow>
     quiet_after_final l \<and> quiet_after_final new
     \<and> (\<forall>e \<in> set l. \<forall>c. final_write e c \<longrightarrow> (\<forall>e' \<in> set new. \<not> by_call e' c))"
proof (induction l)
  case Nil
  show ?case by simp
next
  case (Cons e es)
  show ?case
    unfolding append_Cons quiet_Cons Cons.IH by auto
qed

lemma log_ok_init: "log_ok init"
  by (simp add: log_ok_def init_def)

lemma log_ok_extend:
  assumes "log_ok s"
    and w: "writes s' = writes s @ new"
    and q: "quiet_after_final new"
    and fresh: "\<And>e c. e \<in> set new \<Longrightarrow> by_call e c \<Longrightarrow>
                  c < length (calls s') \<and> (c < length (calls s) \<longrightarrow> c_main (calls s ! c) \<noteq> Returned)"
    and fin: "\<And>e c. e \<in> set new \<Longrightarrow> final_write e c \<Longrightarrow> c_main (calls s' ! c) = Returned"
    and kept: "returned_kept (calls s) (calls s')"
    and len: "length (calls s) \<le> length (calls s')"
  shows "log_ok s'"
proof -
  from assms(1) have q0: "quiet_after_final (writes s)"
    and b0: "\<And>e c. e \<in> set (writes s) \<Longrightarrow> by_call e c \<Longrightarrow> c < length (calls s)"
    and f0: "\<And>e c. e \<in> set (writes s) \<Longrightarrow> final_write e c \<Longrightarrow> c_main (calls s ! c) = Returned"
    by (auto simp: log_ok_def)
  have cross: "\<not> by_call e' c"
    if "e \<in> set (writes s)" "final_write e c" "e' \<in> set new" for e c e'
  proof
    assume bc: "by_call e' c"
    from b0 [OF that(1) final_write_by_call [OF that(2)]] have "c < length (calls s)" .
    with fresh [OF that(3) bc] have "c_main (calls s ! c) \<noteq> Returned" by simp
    with f0 [OF that(1,2)] show False by simp
  qed
  have one: "quiet_after_final (writes s')"
    unfolding w quiet_append using q0 q cross by blast
  have two: "c < length (calls s')" if "e \<in> set (writes s')" "by_call e c" for e c
  proof (cases "e \<in> set new")
    case True
    from fresh [OF True that(2)] show ?thesis by simp
  next
    case False
    with that(1) w have "e \<in> set (writes s)" by simp
    from b0 [OF this that(2)] len show ?thesis by simp
  qed
  have three: "c_main (calls s' ! c) = Returned" if "e \<in> set (writes s')" "final_write e c" for e c
  proof (cases "e \<in> set new")
    case True
    from fin [OF True that(2)] show ?thesis .
  next
    case False
    with that(1) w have e: "e \<in> set (writes s)" by simp
    from b0 [OF e final_write_by_call [OF that(2)]] f0 [OF e that(2)] kept
    show ?thesis by (simp add: returned_kept_def)
  qed
  show ?thesis
    unfolding log_ok_def using one two three by blast
qed

lemma log_ok_calls:
  assumes "log_ok s" "writes s' = writes s" "returned_kept (calls s) (calls s')"
    "length (calls s) \<le> length (calls s')"
  shows "log_ok s'"
  by (rule log_ok_extend [OF assms(1) _ _ _ _ assms(3,4), of "[]"]) (simp_all add: assms(2))

lemma log_ok_sim:
  assumes "log_ok s" "c < length (calls s)"
    and "isSimulationRunning (calls s ! c) \<longrightarrow> c_main (calls s ! c) \<noteq> Returned"
  shows "log_ok (runSimulation c k s)"
proof -
  have rk: "returned_kept (calls s) (calls (runSimulation c k s))"
    unfolding runSimulation_calls by (rule returned_kept_update) simp_all
  have len: "length (calls s) \<le> length (calls (runSimulation c k s))"
    by (simp add: runSimulation_calls)
  show ?thesis
  proof (cases "sim_writes c k s")
    case True
    then have f: "isSimulationRunning (calls s ! c)" by (simp add: sim_writes_def)
    show ?thesis
    proof (rule log_ok_extend [OF assms(1) _ _ _ _ rk len])
      show "writes (runSimulation c k s)
            = writes s @ [(Simulator c, c_id (calls s ! c), step_updates k)]"
        using True by (simp add: runSimulation_writes)
      show "quiet_after_final [(Simulator c, c_id (calls s ! c), step_updates k)]"
        by simp
      fix e c'
      assume e: "e \<in> set [(Simulator c, c_id (calls s ! c), step_updates k)]"
      show "final_write e c' \<Longrightarrow> c_main (calls (runSimulation c k s) ! c') = Returned"
        using e by (simp add: final_write_def)
      show "by_call e c' \<Longrightarrow> c' < length (calls (runSimulation c k s))
            \<and> (c' < length (calls s) \<longrightarrow> c_main (calls s ! c') \<noteq> Returned)"
        using e assms(2,3) f by (simp add: by_call_def runSimulation_calls)
    qed
  next
    case False
    then have "writes (runSimulation c k s) = writes s"
      by (simp add: runSimulation_writes)
    from log_ok_calls [OF assms(1) this rk len] show ?thesis .
  qed
qed

lemma log_ok_finish:
  assumes "log_ok s" "c < length (calls s)" "c_main (calls s ! c) \<noteq> Returned"
  shows "log_ok (finish c u s)"
proof (rule log_ok_extend [OF assms(1)])
  show "writes (finish c u s) = writes s @ [(Main c, c_id (calls s ! c), u)]"
    by (simp add: finish_fields)
  show "quiet_after_final [(Main c, c_id (calls s ! c), u)]"
    by simp
  show "returned_kept (calls s) (calls (finish c u s))"
    unfolding finish_fields by (rule returned_kept_update) simp_all
  show "length (calls s) \<le> length (calls (finish c u s))"
    by (simp add: finish_fields)
  fix e c'
  assume e: "e \<in> set [(Main c, c_id (calls s ! c), u)]"
  show "final_write e c' \<Longrightarrow> c_main (calls (finish c u s) ! c') = Returned"
    using e assms(2) by (simp add: final_write_def finish_fields)
  show "by_call e c' \<Longrightarrow> c' < length (calls (finish c u s))
        \<and> (c' < length (calls s) \<longrightarrow> c_main (calls s ! c') \<noteq> Returned)"
    using e assms(2,3) by (simp add: by_call_def finish_fields)
qed

lemma log_ok_loop: "log_ok t \<Longrightarrow> log_ok (processQueue_loop now t)"
proof (cases "processingQueue t")
  case Nil
  assume "log_ok t"
  with Nil show ?thesis by (simp add: loop_empty log_ok_def)
next
  case (Cons item rest)
  assume ok: "log_ok t"
  let ?n = "length (calls t)"
  let ?new = "[(Main ?n, fst item, start_updates now), (Simulator ?n, fst item, step_updates 0)]"
  have nf: "\<not> final_write (Main ?n, fst item, start_updates now) c" for c
    by (simp add: final_write_def start_updates_def no_updates_def terminal_def)
  show ?thesis
  proof (rule log_ok_extend [OF ok])
    show "writes (processQueue_loop now t) = writes t @ ?new"
      by (simp add: loop_cons [OF Cons])
    show "quiet_after_final ?new"
      using nf by simp
    show "returned_kept (calls t) (calls (processQueue_loop now t))"
      by (simp add: loop_cons [OF Cons] returned_kept_append)
    show "length (calls t) \<le> length (calls (processQueue_loop now t))"
      by (simp add: loop_cons [OF Cons])
    fix e c
    assume e: "e \<in> set ?new"
    show "final_write e c \<Longrightarrow> c_main (calls (processQueue_loop now t) ! c) = Returned"
      using e nf by (auto simp: final_write_def)
    show "by_call e c \<Longrightarrow> c < length (calls (processQueue_loop now t))
          \<and> (c < length (calls t) \<longrightarrow> c_main (calls t ! c) \<noteq> Returned)"
      using e by (auto simp: by_call_def loop_cons [OF Cons])
  qed
qed

lemma log_ok_add: "log_ok s \<Longrightarrow> log_ok (addFiles files now s)"
proof (cases "isProcessing s")
  case True
  assume ok: "log_ok s"
  from addFiles_busy [OF True, of files now] ok show ?thesis
    by (simp add: log_ok_def)
next
  case False
  assume ok: "log_ok s"
  from addFiles_idle [OF False] obtain t
    where t: "addFiles files now s = processQueue_loop now t" "calls t = calls s"
      "writes t = writes s"
    by metis
  from ok t(2,3) have "log_ok t" by (simp add: log_ok_def)
  then show ?thesis unfolding t(1) by (rule log_ok_loop)
qed

lemma log_ok_step:
  assumes "single_flight s" "log_ok s"
  shows "log_ok (step rt ev s)"
proof (cases ev)
  case (AddFiles files now)
  with assms(2) show ?thesis by (simp add: step_def log_ok_add)
next
  case (TimerFires c)
  show ?thesis
  proof (cases "c < length (calls s)")
    case True
    from assms(1) True
    have "isSimulationRunning (calls s ! c) \<longrightarrow> c_main (calls s ! c) \<noteq> Returned"
      by (auto simp: single_flight_def)
    from log_ok_sim [OF assms(2) True this] assms(2) show ?thesis
      by (simp add: TimerFires step_TimerFires split: sim_phase.splits)
  next
    case False
    with assms(2) show ?thesis by (simp add: TimerFires step_TimerFires)
  qed
next
  case (FetchSettles c out now)
  show ?thesis
  proof (cases "c < length (calls s) \<and> c_main (calls s ! c) = AwaitFetch")
    case True
    then have c: "c < length (calls s)" and m: "c_main (calls s ! c) = AwaitFetch" by simp_all
    from m have nr: "c_main (calls s ! c) \<noteq> Returned" by simp
    let ?a = "s\<lparr>calls := (calls s)[c := (calls s ! c)\<lparr>isSimulationRunning := False,
                                                       c_main := AwaitJson\<rparr>]\<rparr>"
    have "returned_kept (calls s) (calls ?a)"
      using m by (simp add: returned_kept_update)
    then have a: "log_ok ?a"
      by (rule log_ok_calls [OF assms(2), rotated]) simp_all
    have f: "log_ok (processQueue_loop now (finish c (catch_updates (fetch_error out)) s))"
      by (rule log_ok_loop) (rule log_ok_finish [OF assms(2) c nr])
    show ?thesis
      unfolding FetchSettles step_FetchSettles [OF c m]
      using a f by (auto split: fetch_outcome.splits bool.splits)
  next
    case False
    with assms(2) show ?thesis by (simp add: FetchSettles step_disabled)
  qed
next
  case (JsonSettles c out now)
  show ?thesis
  proof (cases "c < length (calls s) \<and> c_main (calls s ! c) = AwaitJson")
    case True
    then have c: "c < length (calls s)" and m: "c_main (calls s ! c) = AwaitJson" by simp_all
    from m have nr: "c_main (calls s ! c) \<noteq> Returned" by simp
    from assms(1) c m have f: "\<not> isSimulationRunning (calls s ! c)"
      by (auto simp: single_flight_def)
    show ?thesis
      unfolding JsonSettles step_JsonSettles [OF c m f]
      by (rule log_ok_loop) (rule log_ok_finish [OF assms(2) c nr])
  next
    case False
    with assms(2) show ?thesis by (simp add: JsonSettles step_disabled)
  qed
next
  case (SelectDoc i)
  with assms(2) show ?thesis by (simp add: step_def log_ok_def)
qed

lemma log_ok_run: "single_flight s \<Longrightarrow> log_ok s \<Longrightarrow> log_ok (run rt evs s)"
  by (induction evs arbitrary: s) (simp_all add: log_ok_step single_flight_step)

lemma quiet_run: "quiet_after_final (writes (run rt evs init))"
  using log_ok_run [OF single_flight_init log_ok_init, of rt evs] by (simp add: log_ok_def)

text \<open>Once the flag of an invocation is cleared, its simulator's timer changes neither the
  registry nor the log.\<close>

lemma cleared_timer_writes_nothing:
  assumes "c < length (calls s)" "\<not> isSimulationRunning (calls s ! c)"
  shows "documents (step rt (TimerFires c) s) = documents s
       \<and> writes (step rt (TimerFires c) s) = writes s"
  using assms
  by (simp add: step_TimerFires runSimulation_documents runSimulation_writes sim_writes_def
      split: sim_phase.splits)

lemma settled_flag_cleared:
  assumes "c < length (calls (run rt evs init))"
    and "c_main (calls (run rt evs init) ! c) \<noteq> AwaitFetch"
  shows "\<not> isSimulationRunning (calls (run rt evs init) ! c)"
  using single_flight_run [OF single_flight_init, of rt evs] assms
  by (auto simp: single_flight_def)

text \<open>
  C1, amended. In every run of the hook, the log of writes is quiet after each final write:
  once the main body of an invocation has written \<open>complete\<close> or \<open>error\<close>, neither its
  simulator nor the main body itself writes again. The flag does it: in every reachable state
  an invocation whose \<^verbatim>\<open>fetch\<close> has settled has its flag cleared, on the success path
  as on the failure path, and a timer of its simulator that fires then changes neither the
  registry nor the log. For the records this gives: a record that has reached \<open>complete\<close>
  or \<open>error\<close> is the same record in every later state in whose registry no other record
  has its identifier.
\<close>

theorem final_write_is_last:
  "quiet_after_final (writes (run rt evs init))
   \<and> (c < length (calls (run rt evs init)) \<longrightarrow>
        c_main (calls (run rt evs init) ! c) \<noteq> AwaitFetch \<longrightarrow>
          \<not> isSimulationRunning (calls (run rt evs init) ! c)
          \<and> documents (step rt (TimerFires c) (run rt evs init)) = documents (run rt evs init)
          \<and> writes (step rt (TimerFires c) (run rt evs init)) = writes (run rt evs init))
   \<and> (k < length (documents (run rt evs init)) \<longrightarrow>
        terminal (stage (documents (run rt evs init) ! k)) \<longrightarrow>
        unshared (documents (run rt (evs @ evs') init)) k \<longrightarrow>
          documents (run rt (evs @ evs') init) ! k = documents (run rt evs init) ! k)"
proof -
  have a: "quiet_after_final (writes (run rt evs init))"
    by (rule quiet_run)
  have b: "c < length (calls (run rt evs init)) \<longrightarrow>
        c_main (calls (run rt evs init) ! c) \<noteq> AwaitFetch \<longrightarrow>
          \<not> isSimulationRunning (calls (run rt evs init) ! c)
          \<and> documents (step rt (TimerFires c) (run rt evs init)) = documents (run rt evs init)
          \<and> writes (step rt (TimerFires c) (run rt evs init)) = writes (run rt evs init)"
    using settled_flag_cleared cleared_timer_writes_nothing by blast
  have d: "k < length (documents (run rt evs init)) \<longrightarrow>
        terminal (stage (documents (run rt evs init) ! k)) \<longrightarrow>
        unshared (documents (run rt (evs @ evs') init)) k \<longrightarrow>
          documents (run rt (evs @ evs') init) ! k = documents (run rt evs init) ! k"
    using terminal_records_stable by blast
  show ?thesis
    using a b d by (intro conjI) assumption+
qed

lemma unshared_by_ids:
  assumes "k < length ds"
  shows "unshared ds k \<longleftrightarrow>
     filter (\<lambda>j. j \<noteq> k \<and> map doc_id ds ! j = map doc_id ds ! k) [0..<length (map doc_id ds)] = []"
  using assms by (auto simp: unshared_def sharers_def filter_empty_conv)

lemma failed_run_state:
  "calls (run sample_runtime failed_run init)
     = [\<lparr>c_id = make_id 1700000000000 ''k3x9qa'', c_file = sample_file,
         isSimulationRunning = False, c_main = Returned, c_sim = Sleeping 0\<rparr>]"
  "map stage (documents (run sample_runtime failed_run init)) = [error]"
  "map doc_id (documents (run sample_runtime failed_run init)) = [make_id 1700000000000 ''k3x9qa'']"
  "map fst (writes (run sample_runtime failed_run init)) = [Main 0, Simulator 0, Main 0]"
  by (simp_all add: failed_run_def run_defs fetch_error_def)

theorem final_write_is_last_witness:
  "(0::nat) < length (calls (run sample_runtime failed_run init))
   \<and> c_main (calls (run sample_runtime failed_run init) ! 0) \<noteq> AwaitFetch
   \<and> map fst (writes (run sample_runtime failed_run init)) = [Main 0, Simulator 0, Main 0]
   \<and> writes (step sample_runtime (TimerFires 0) (run sample_runtime failed_run init))
       = writes (run sample_runtime failed_run init)
   \<and> map doc_id (documents (run sample_runtime (failed_run @ later_events) init))
       = [make_id 1700000000000 ''k3x9qa'', make_id 1700000002000 ''p07zzm'',
          make_id 1700000002000 ''p07zzm'']
   \<and> \<not> distinct (map doc_id (documents (run sample_runtime (failed_run @ later_events) init)))
   \<and> unshared (documents (run sample_runtime (failed_run @ later_events) init)) 0
   \<and> (0::nat) < length (documents (run sample_runtime failed_run init))
   \<and> terminal (stage (documents (run sample_runtime failed_run init) ! 0))
   \<and> documents (run sample_runtime (failed_run @ later_events) init) ! 0
       = documents (run sample_runtime failed_run init) ! 0"
proof -
  note t = final_write_is_last [where rt = sample_runtime and evs = failed_run
      and evs' = later_events and c = 0 and k = 0]
  note t2 = t [THEN conjunct2, THEN conjunct1]
  note t3 = t [THEN conjunct2, THEN conjunct2]
  have h1: "(0::nat) < length (calls (run sample_runtime failed_run init))"
    and h2: "c_main (calls (run sample_runtime failed_run init) ! 0) \<noteq> AwaitFetch"
    by (simp_all add: failed_run_state(1))
  have h3: "map fst (writes (run sample_runtime failed_run init)) = [Main 0, Simulator 0, Main 0]"
    by (rule failed_run_state(4))
  have ids: "map doc_id (documents (run sample_runtime (failed_run @ later_events) init))
        = [make_id 1700000000000 ''k3x9qa'', make_id 1700000002000 ''p07zzm'',
           make_id 1700000002000 ''p07zzm'']"
    using doc_items_run [of sample_runtime later_events "run sample_runtime failed_run init"]
      failed_run_state(3)
    by (simp add: run_append doc_ids_of_items later_events_def later_repeated_draw_def newDocs_def
        new_doc_def doc_item_def)
  have nd: "\<not> distinct (map doc_id (documents (run sample_runtime (failed_run @ later_events) init)))"
    unfolding ids by simp
  have "length (map doc_id (documents (run sample_runtime (failed_run @ later_events) init))) = 3"
    unfolding ids by simp
  then have l3: "(0::nat) < length (documents (run sample_runtime (failed_run @ later_events) init))"
    by simp
  have h4: "unshared (documents (run sample_runtime (failed_run @ later_events) init)) 0"
    unfolding unshared_by_ids [OF l3] ids
    by (simp add: make_id_inj upt_rec)
  have len: "length (documents (run sample_runtime failed_run init)) = 1"
    using failed_run_state(2) by (metis length_map length_Cons list.size(3) One_nat_def)
  then have h5: "(0::nat) < length (documents (run sample_runtime failed_run init))"
    by simp
  have "stage (documents (run sample_runtime failed_run init) ! 0) = error"
    using failed_run_state(2) h5 by (metis nth_map nth_Cons_0)
  then have h6: "terminal (stage (documents (run sample_runtime failed_run init) ! 0))"
    by (simp add: terminal_def)
  have c1: "writes (step sample_runtime (TimerFires 0) (run sample_runtime failed_run init))
       = writes (run sample_runtime failed_run init)"
    using t2 h1 h2 by simp
  have c2: "documents (run sample_runtime (failed_run @ later_events) init) ! 0
       = documents (run sample_runtime failed_run init) ! 0"
    using t3 h4 h5 h6 by simp
  show ?thesis
    using h1 h2 h3 c1 ids nd h4 h5 h6 c2 by simp
qed

text \<open>
  The claim as stated fails when two records share an identifier. In the batch with the
  repeated draw the first document fails; its final write marks it \<open>error\<close>; the worker then
  starts the second document, and the starting write and the simulator of that invocation
  write to the shared identifier, so the record of the first document is back in
  \<open>rotation_check\<close>.
\<close>

theorem shared_identifier_counterexample:
  "map summary (writes (run sample_runtime repeated_run init))
     = [(Main 0, make_id 1700000000000 ''k3x9qa'', Some rotation_check),
        (Simulator 0, make_id 1700000000000 ''k3x9qa'', Some rotation_check),
        (Main 0, make_id 1700000000000 ''k3x9qa'', Some error),
        (Main 1, make_id 1700000000000 ''k3x9qa'', Some rotation_check),
        (Simulator 1, make_id 1700000000000 ''k3x9qa'', Some rotation_check)]
   \<and> map doc_id (documents (run sample_runtime repeated_run init))
       = [make_id 1700000000000 ''k3x9qa'', make_id 1700000000000 ''k3x9qa'']
   \<and> map stage (documents (run sample_runtime repeated_run init))
       = [rotation_check, rotation_check]
   \<and> map error_text (documents (run sample_runtime repeated_run init))
       = [Some ''Server error: Internal Server Error'', Some ''Server error: Internal Server Error'']"
  by (simp add: repeated_run_def repeated_draw_def run_defs fetch_error_def summary_def)

section \<open>Failures of the operation\<close>

lemma spread_catch: "spread d (catch_updates e) = failed_with (message_of e) d"
  by (simp add: spread_def catch_updates_def no_updates_def failed_with_def message_of_def)

lemma settle_updates_failure:
  "(case bo of BodyRejected x \<Rightarrow> Inl x | Body j \<Rightarrow> after_json rt j tm) = Inl e
   \<Longrightarrow> settle_updates rt bo tm = catch_updates e"
  by (simp add: settle_updates_def)

lemma fetch_failure_step:
  assumes "c < length (calls s)" "c_main (calls s ! c) = AwaitFetch"
    and "case fo of FetchRejected x \<Rightarrow> True | Response ok st \<Rightarrow> \<not> ok"
  shows "step rt (FetchSettles c fo tm) s
         = processQueue_loop tm (finish c (catch_updates (fetch_error fo)) s)"
  unfolding step_FetchSettles [OF assms(1,2)]
  using assms(3) by (simp split: fetch_outcome.splits bool.splits)

lemma json_failure_step:
  assumes "single_flight s" "c < length (calls s)" "c_main (calls s ! c) = AwaitJson"
    and "(case bo of BodyRejected x \<Rightarrow> Inl x | Body j \<Rightarrow> after_json rt j tm) = Inl e"
  shows "step rt (JsonSettles c bo tm) s = processQueue_loop tm (finish c (catch_updates e) s)"
proof -
  from assms(1,2,3) have f: "\<not> isSimulationRunning (calls s ! c)"
    by (auto simp: single_flight_def)
  show ?thesis
    by (simp add: step_JsonSettles [OF assms(2,3) f] settle_updates_failure [OF assms(4)])
qed

text \<open>
  The state after an invocation has failed: its record, when no other record has its
  identifier, is marked failed and has no result; and the worker has gone on.
\<close>

lemma failure_outcome:
  assumes sf: "single_flight s" and im: "items_match s" and ow: "terminal_owned s"
    and c: "c < length (calls s)" and nr: "c_main (calls s ! c) \<noteq> Returned"
    and t: "t = processQueue_loop tm (finish c (catch_updates e) s)"
  shows "doc_id (documents s ! c) = c_id (calls s ! c)"
    and "c_main (calls t ! c) = Returned"
    and "unshared (documents s) c \<Longrightarrow>
           stage (documents t ! c) = error \<and> stageMessage (documents t ! c) = ''Error''
           \<and> error_text (documents t ! c) = Some (message_of e)
           \<and> result (documents t ! c) = JNull"
    and "processingQueue s = item # rest \<Longrightarrow>
           calls t ! length (calls s) = new_call item \<and> processingQueue t = rest
           \<and> isProcessing t"
proof -
  note r = call_is_record [OF im c]
  show id: "doc_id (documents s ! c) = c_id (calls s ! c)" by (rule r(3))
  show "c_main (calls t ! c) = Returned"
    unfolding t by (rule returned_after_finish_loop [OF c])
  note w = worker_after_return [OF t]
  from unreturned_is_last(2) [OF sf c nr] have p: "isProcessing s" .
  show "calls t ! length (calls s) = new_call item \<and> processingQueue t = rest \<and> isProcessing t"
    if "processingQueue s = item # rest"
    using w that p by simp
  let ?f = "finish c (catch_updates e) s"
  assume un: "unshared (documents s) c"
  have ns: "\<not> settled (documents s ! c)"
  proof
    assume "settled (documents s ! c)"
    from owner_is_self(2) [OF im ow r(1) un this] nr show False by simp
  qed
  then have res: "result (documents s ! c) = JNull" by (simp add: settled_def)
  have fin: "documents ?f ! c = failed_with (message_of e) (documents s ! c)"
    using r(1) id by (simp add: finish_fields updateDoc_nth spread_catch)
  have len: "c < length (documents ?f)"
    using r(1) by (simp add: finish_fields updateDoc_length)
  obtain st where st: "u_stage (catch_updates e) = Some st"
    using u_stage_final(1) by blast
  have "documents (processQueue_loop tm ?f) ! c = documents ?f ! c"
  proof (rule stable_loop)
    show "items_match ?f" by (rule items_match_finish [OF im keeps_identity_updates(3)])
    show "terminal_owned ?f"
      by (rule terminal_owned_finish [OF ow c keeps_identity_updates(3) st])
    show "unshared (documents ?f) c"
      by (rule unshared_finish [OF keeps_identity_updates(3) r(1) un])
    show "c < length (documents ?f)" by (rule len)
    show "settled (documents ?f ! c)"
      by (simp add: fin failed_with_def settled_def terminal_def)
  qed
  with fin t have "documents t ! c = failed_with (message_of e) (documents s ! c)" by simp
  with res show "stage (documents t ! c) = error \<and> stageMessage (documents t ! c) = ''Error''
           \<and> error_text (documents t ! c) = Some (message_of e)
           \<and> result (documents t ! c) = JNull"
    by (simp add: failed_with_def)
qed

lemma reachable_invariants:
  "single_flight (run rt evs init)" "items_match (run rt evs init)"
  "terminal_owned (run rt evs init)"
  by (rule single_flight_run [OF single_flight_init],
      rule items_match_run [OF items_match_init],
      rule terminal_owned_run [OF single_flight_init terminal_owned_init])

lemma truthy_flag_run:
  "documents (run rt [AddFiles [(f, t, r)] n0, FetchSettles 0 (Response True st) n1,
                      JsonSettles 0 (Body truthy_flag_response) n2] init)
   = [(new_doc (f, t, r))\<lparr>stage := complete,
        stageMessage := check_mark @ '' Extraction complete'',
        result := JObj [(''claims'', JArr [])],
        metadata := Some \<lparr>insurer = JStr ''Unknown'', format = JStr ''standard'',
                           confidence = Num 95, claims_count = JNum 0\<rparr>,
        startedAt := Some n0, completedAt := Some n2\<rparr>]"
  by (simp add: run_defs truthy_flag_response_def)

text \<open>
  C4, amended. Every failure of the per-document operation ends in the \<^verbatim>\<open>catch\<close>
  block, which marks the records of the document \<open>error\<close> with a message and touches no
  result: a rejected \<^verbatim>\<open>fetch\<close> records the message of the rejection; a response that
  is not \<^verbatim>\<open>ok\<close> records \<open>Server error:\<close> and the status text; a body that is not
  JSON records the message of the parse error; a body whose success flag is not truthy
  records the text of its error field, or \<open>Unknown backend error\<close> without one, or the
  message of the conversion when that field has no text; any other fault of the
  \<^verbatim>\<open>try\<close> block records its message. In every case \<^verbatim>\<open>processDocument\<close>
  returns without throwing. In every state the hook reaches, the step in which the request
  or the body of the invocation in flight settles in one of these ways makes the invocation
  return; the record of the invocation, when no other record has its identifier, is then in
  stage \<open>error\<close> with that message and has a \<^verbatim>\<open>null\<close> result; and in the same step the
  worker starts the head of the pending list. Were \<^verbatim>\<open>processDocument\<close> to throw, the
  worker would mark the document \<open>error\<close> with \<open>Processing failed\<close> and go on in the same
  way. A response \<^verbatim>\<open>{success:false, error:"bad pdf"}\<close> leaves the uploaded document in
  \<open>error\<close> with message \<open>bad pdf\<close> and a \<^verbatim>\<open>null\<close> result, and a response that is
  not \<^verbatim>\<open>ok\<close> leaves it in \<open>error\<close> with the status text.
\<close>

theorem failures_end_in_error:
  "(\<exists>r. on_fetch c (FetchRejected e) s = Inl r \<and> fst r = None
        \<and> documents (snd r) = marked_error (c_id (calls s ! c)) (message_of e) (documents s))
   \<and> (\<exists>r. on_fetch c (Response False st) s = Inl r \<and> fst r = None
        \<and> documents (snd r)
            = marked_error (c_id (calls s ! c)) (''Server error: '' @ st) (documents s))
   \<and> fst (on_json rt c out now s) = None
   \<and> documents (snd (on_json rt c (BodyRejected e) now s))
       = marked_error (c_id (calls s ! c)) (message_of e) (documents s)
   \<and> (\<not> nullish json \<longrightarrow> \<not> truthy (own json ''success'') \<longrightarrow>
        after_json rt json now
          = Inl (case to_string rt (or_else (own json ''error'') (JStr ''Unknown backend error'')) of
                   Inl e' \<Rightarrow> e' | Inr text \<Rightarrow> ErrorInstance text)
        \<and> documents (snd (on_json rt c (Body json) now s))
          = marked_error (c_id (calls s ! c))
              (case to_string rt (or_else (own json ''error'') (JStr ''Unknown backend error'')) of
                 Inl e' \<Rightarrow> message_of e' | Inr text \<Rightarrow> text)
              (documents s))
   \<and> (\<forall>e'. after_json rt json now = Inl e' \<longrightarrow>
        documents (snd (on_json rt c (Body json) now s))
          = marked_error (c_id (calls s ! c)) (message_of e') (documents s))
   \<and> (\<forall>k < length ds. doc_id (ds ! k) = i \<longrightarrow>
        stage (marked_error i m ds ! k) = error \<and> error_text (marked_error i m ds ! k) = Some m
        \<and> result (marked_error i m ds ! k) = result (ds ! k))
   \<and> fetch_error (FetchRejected e) = e
   \<and> fetch_error (Response False st) = ErrorInstance (''Server error: '' @ st)
   \<and> message_of (ErrorInstance m) = m
   \<and> message_of NonError = ''Processing failed''
   \<and> (a < length (calls (run rt evs init)) \<longrightarrow>
        c_main (calls (run rt evs init) ! a) = AwaitFetch \<longrightarrow>
        (case fo of FetchRejected x \<Rightarrow> True | Response ok st' \<Rightarrow> \<not> ok) \<longrightarrow>
          doc_id (documents (run rt evs init) ! a) = c_id (calls (run rt evs init) ! a)
          \<and> c_main (calls (step rt (FetchSettles a fo tm) (run rt evs init)) ! a) = Returned
          \<and> (unshared (documents (run rt evs init)) a \<longrightarrow>
               stage (documents (step rt (FetchSettles a fo tm) (run rt evs init)) ! a) = error
               \<and> stageMessage (documents (step rt (FetchSettles a fo tm) (run rt evs init)) ! a)
                   = ''Error''
               \<and> error_text (documents (step rt (FetchSettles a fo tm) (run rt evs init)) ! a)
                   = Some (message_of (fetch_error fo))
               \<and> result (documents (step rt (FetchSettles a fo tm) (run rt evs init)) ! a) = JNull)
          \<and> (processingQueue (run rt evs init) = item # rest \<longrightarrow>
               calls (step rt (FetchSettles a fo tm) (run rt evs init))
                   ! length (calls (run rt evs init)) = new_call item
               \<and> processingQueue (step rt (FetchSettles a fo tm) (run rt evs init)) = rest
               \<and> isProcessing (step rt (FetchSettles a fo tm) (run rt evs init))))
   \<and> (a < length (calls (run rt evs init)) \<longrightarrow>
        c_main (calls (run rt evs init) ! a) = AwaitJson \<longrightarrow>
        (case bo of BodyRejected x \<Rightarrow> Inl x | Body j \<Rightarrow> after_json rt j tm) = Inl e2 \<longrightarrow>
          doc_id (documents (run rt evs init) ! a) = c_id (calls (run rt evs init) ! a)
          \<and> c_main (calls (step rt (JsonSettles a bo tm) (run rt evs init)) ! a) = Returned
          \<and> (unshared (documents (run rt evs init)) a \<longrightarrow>
               stage (documents (step rt (JsonSettles a bo tm) (run rt evs init)) ! a) = error
               \<and> stageMessage (documents (step rt (JsonSettles a bo tm) (run rt evs init)) ! a)
                   = ''Error''
               \<and> error_text (documents (step rt (JsonSettles a bo tm) (run rt evs init)) ! a)
                   = Some (message_of e2)
               \<and> result (documents (step rt (JsonSettles a bo tm) (run rt evs init)) ! a) = JNull)
          \<and> (processingQueue (run rt evs init) = item # rest \<longrightarrow>
               calls (step rt (JsonSettles a bo tm) (run rt evs init))
                   ! length (calls (run rt evs init)) = new_call item
               \<and> processingQueue (step rt (JsonSettles a bo tm) (run rt evs init)) = rest
               \<and> isProcessing (step rt (JsonSettles a bo tm) (run rt evs init))))
   \<and> worker_resume c now (Some e, s)
       = processQueue_loop now
           (s\<lparr>documents := marked_error (c_id (calls s ! c)) ''Processing failed'' (documents s),
              writes := writes s @ [(Worker, c_id (calls s ! c),
                 no_updates\<lparr>u_stage := Some error, u_error := Some (Some ''Processing failed''),
                             u_stageMessage := Some ''Error''\<rparr>)]\<rparr>)
   \<and> documents (run rt [AddFiles [(f, t, r)] n0, FetchSettles 0 (Response True st) n1,
                        JsonSettles 0 (Body bad_pdf_response) n2] init)
       = [(new_doc (f, t, r))\<lparr>stage := error, stageMessage := ''Error'',
            error_text := Some ''bad pdf'', startedAt := Some n0\<rparr>]
   \<and> documents (run rt [AddFiles [(f, t, r)] n0, FetchSettles 0 (Response False st) n1] init)
       = [(new_doc (f, t, r))\<lparr>stage := error, stageMessage := ''Error'',
            error_text := Some (''Server error: '' @ st), startedAt := Some n0\<rparr>]
   \<and> result (new_doc (f, t, r)) = JNull"
proof -
  let ?S = "run rt evs init"
  note inv = reachable_invariants [of rt evs]
  have c1: "\<exists>r. on_fetch c (FetchRejected e) s = Inl r \<and> fst r = None
        \<and> documents (snd r) = marked_error (c_id (calls s ! c)) (message_of e) (documents s)"
    using catch_block_result [of c e s] by (simp add: on_fetch_rejected updateDoc_marked)
  have c5: "\<not> nullish json \<longrightarrow> \<not> truthy (own json ''success'') \<longrightarrow>
        after_json rt json now
          = Inl (case to_string rt (or_else (own json ''error'') (JStr ''Unknown backend error'')) of
                   Inl e' \<Rightarrow> e' | Inr text \<Rightarrow> ErrorInstance text)
        \<and> documents (snd (on_json rt c (Body json) now s))
          = marked_error (c_id (calls s ! c))
              (case to_string rt (or_else (own json ''error'') (JStr ''Unknown backend error'')) of
                 Inl e' \<Rightarrow> message_of e' | Inr text \<Rightarrow> text)
              (documents s)"
  proof (intro impI)
    assume h: "\<not> nullish json" "\<not> truthy (own json ''success'')"
    have m: "message_of (backend_error rt json)
        = (case to_string rt (or_else (own json ''error'') (JStr ''Unknown backend error'')) of
                 Inl e' \<Rightarrow> message_of e' | Inr text \<Rightarrow> text)"
      by (simp add: backend_error_def message_of_def split: sum.splits)
    from after_json_failure [OF h, of rt now] on_json_not_success [OF h, of rt c now s] m
    show "after_json rt json now
          = Inl (case to_string rt (or_else (own json ''error'') (JStr ''Unknown backend error'')) of
                   Inl e' \<Rightarrow> e' | Inr text \<Rightarrow> ErrorInstance text)
        \<and> documents (snd (on_json rt c (Body json) now s))
          = marked_error (c_id (calls s ! c))
              (case to_string rt (or_else (own json ''error'') (JStr ''Unknown backend error'')) of
                 Inl e' \<Rightarrow> message_of e' | Inr text \<Rightarrow> text)
              (documents s)"
      by (simp add: backend_error_def)
  qed
  have c6: "\<forall>e'. after_json rt json now = Inl e' \<longrightarrow>
        documents (snd (on_json rt c (Body json) now s))
          = marked_error (c_id (calls s ! c)) (message_of e') (documents s)"
    using on_json_faulting by blast
  have c7: "\<forall>k < length ds. doc_id (ds ! k) = i \<longrightarrow>
        stage (marked_error i m ds ! k) = error \<and> error_text (marked_error i m ds ! k) = Some m
        \<and> result (marked_error i m ds ! k) = result (ds ! k)"
    using marked_error_nth by blast
  have c8: "fetch_error (FetchRejected e) = e"
    and c9: "fetch_error (Response False st) = ErrorInstance (''Server error: '' @ st)"
    and c10: "message_of (ErrorInstance m) = m"
    and c11: "message_of NonError = ''Processing failed''"
    by (simp_all add: fetch_error_def message_of_def)
  have c12: "a < length (calls ?S) \<longrightarrow>
        c_main (calls ?S ! a) = AwaitFetch \<longrightarrow>
        (case fo of FetchRejected x \<Rightarrow> True | Response ok st' \<Rightarrow> \<not> ok) \<longrightarrow>
          doc_id (documents ?S ! a) = c_id (calls ?S ! a)
          \<and> c_main (calls (step rt (FetchSettles a fo tm) ?S) ! a) = Returned
          \<and> (unshared (documents ?S) a \<longrightarrow>
               stage (documents (step rt (FetchSettles a fo tm) ?S) ! a) = error
               \<and> stageMessage (documents (step rt (FetchSettles a fo tm) ?S) ! a) = ''Error''
               \<and> error_text (documents (step rt (FetchSettles a fo tm) ?S) ! a)
                   = Some (message_of (fetch_error fo))
               \<and> result (documents (step rt (FetchSettles a fo tm) ?S) ! a) = JNull)
          \<and> (processingQueue ?S = item # rest \<longrightarrow>
               calls (step rt (FetchSettles a fo tm) ?S) ! length (calls ?S) = new_call item
               \<and> processingQueue (step rt (FetchSettles a fo tm) ?S) = rest
               \<and> isProcessing (step rt (FetchSettles a fo tm) ?S))"
  proof (intro impI)
    assume a: "a < length (calls ?S)" and m: "c_main (calls ?S ! a) = AwaitFetch"
      and k: "case fo of FetchRejected x \<Rightarrow> True | Response ok st' \<Rightarrow> \<not> ok"
    from m have nr: "c_main (calls ?S ! a) \<noteq> Returned" by simp
    note o = failure_outcome [OF inv a nr fetch_failure_step [OF a m k, of rt tm]]
    from o(1) o(2) o(3) o(4) [of item rest]
    show "doc_id (documents ?S ! a) = c_id (calls ?S ! a)
          \<and> c_main (calls (step rt (FetchSettles a fo tm) ?S) ! a) = Returned
          \<and> (unshared (documents ?S) a \<longrightarrow>
               stage (documents (step rt (FetchSettles a fo tm) ?S) ! a) = error
               \<and> stageMessage (documents (step rt (FetchSettles a fo tm) ?S) ! a) = ''Error''
               \<and> error_text (documents (step rt (FetchSettles a fo tm) ?S) ! a)
                   = Some (message_of (fetch_error fo))
               \<and> result (documents (step rt (FetchSettles a fo tm) ?S) ! a) = JNull)
          \<and> (processingQueue ?S = item # rest \<longrightarrow>
               calls (step rt (FetchSettles a fo tm) ?S) ! length (calls ?S) = new_call item
               \<and> processingQueue (step rt (FetchSettles a fo tm) ?S) = rest
               \<and> isProcessing (step rt (FetchSettles a fo tm) ?S))"
      by blast
  qed
  have c13: "a < length (calls ?S) \<longrightarrow>
        c_main (calls ?S ! a) = AwaitJson \<longrightarrow>
        (case bo of BodyRejected x \<Rightarrow> Inl x | Body j \<Rightarrow> after_json rt j tm) = Inl e2 \<longrightarrow>
          doc_id (documents ?S ! a) = c_id (calls ?S ! a)
          \<and> c_main (calls (step rt (JsonSettles a bo tm) ?S) ! a) = Returned
          \<and> (unshared (documents ?S) a \<longrightarrow>
               stage (documents (step rt (JsonSettles a bo tm) ?S) ! a) = error
               \<and> stageMessage (documents (step rt (JsonSettles a bo tm) ?S) ! a) = ''Error''
               \<and> error_text (documents (step rt (JsonSettles a bo tm) ?S) ! a)
                   = Some (message_of e2)
               \<and> result (documents (step rt (JsonSettles a bo tm) ?S) ! a) = JNull)
          \<and> (processingQueue ?S = item # rest \<longrightarrow>
               calls (step rt (JsonSettles a bo tm) ?S) ! length (calls ?S) = new_call item
               \<and> processingQueue (step rt (JsonSettles a bo tm) ?S) = rest
               \<and> isProcessing (step rt (JsonSettles a bo tm) ?S))"
  proof (intro impI)
    assume a: "a < length (calls ?S)" and m: "c_main (calls ?S ! a) = AwaitJson"
      and k: "(case bo of BodyRejected x \<Rightarrow> Inl x | Body j \<Rightarrow> after_json rt j tm) = Inl e2"
    from m have nr: "c_main (calls ?S ! a) \<noteq> Returned" by simp
    note o = failure_outcome [OF inv a nr json_failure_step [OF inv(1) a m k]]
    from o(1) o(2) o(3) o(4) [of item rest]
    show "doc_id (documents ?S ! a) = c_id (calls ?S ! a)
          \<and> c_main (calls (step rt (JsonSettles a bo tm) ?S) ! a) = Returned
          \<and> (unshared (documents ?S) a \<longrightarrow>
               stage (documents (step rt (JsonSettles a bo tm) ?S) ! a) = error
               \<and> stageMessage (documents (step rt (JsonSettles a bo tm) ?S) ! a) = ''Error''
               \<and> error_text (documents (step rt (JsonSettles a bo tm) ?S) ! a)
                   = Some (message_of e2)
               \<and> result (documents (step rt (JsonSettles a bo tm) ?S) ! a) = JNull)
          \<and> (processingQueue ?S = item # rest \<longrightarrow>
               calls (step rt (JsonSettles a bo tm) ?S) ! length (calls ?S) = new_call item
               \<and> processingQueue (step rt (JsonSettles a bo tm) ?S) = rest
               \<and> isProcessing (step rt (JsonSettles a bo tm) ?S))"
      by blast
  qed
  show ?thesis
    using c1 on_fetch_not_ok [of c st s] on_json_never_throws [of rt c out now s]
      on_json_rejected [of rt c e now s] c5 c6 c7 c8 c9 c10 c11 c12 c13
      worker_forces_error [of c now e s] bad_pdf_run [of rt f t r n0 st n1 n2]
      http_500_run [of rt f t r n0 st n1] new_doc_result [of "(f, t, r)"]
    by (intro conjI) assumption+
qed

lemma awaiting_body_state:
  "calls (run sample_runtime awaiting_body_run init)
     = [\<lparr>c_id = make_id 1700000000000 ''k3x9qa'', c_file = sample_file,
         isSimulationRunning = False, c_main = AwaitJson, c_sim = Sleeping 0\<rparr>]"
  "map doc_id (documents (run sample_runtime awaiting_body_run init))
     = [make_id 1700000000000 ''k3x9qa'']"
  by (simp_all add: awaiting_body_run_def run_defs)

lemma draining_ids:
  "map doc_id (documents (run sample_runtime draining_run init))
     = [make_id 1700000000000 ''k3x9qa'', make_id 1700000002000 ''p07zzm'']"
  by (simp add: draining_run_def second_batch_def run_defs)

lemma unshared_first:
  assumes "map doc_id ds = i # others" "i \<notin> set others"
  shows "unshared ds 0"
proof -
  from assms(1) have "length (map doc_id ds) = length (i # others)" by simp
  then have l: "0 < length ds" "length ds = Suc (length others)" by simp_all
  have "doc_id (ds ! j) \<noteq> doc_id (ds ! 0)" if "j < length ds" "j \<noteq> 0" for j
  proof -
    from that obtain j' where j': "j = Suc j'" "j' < length others"
      using l(2) by (cases j) simp_all
    from assms(1) have "map doc_id ds ! j = (i # others) ! j" "map doc_id ds ! 0 = (i # others) ! 0"
      by simp_all
    with that l(1) j' have "doc_id (ds ! j) = others ! j'" "doc_id (ds ! 0) = i" by simp_all
    with assms(2) j'(2) show ?thesis by (metis nth_mem)
  qed
  then show ?thesis by (simp add: unshared_iff)
qed

theorem failures_end_in_error_witness:
  "\<not> nullish bad_pdf_response \<and> \<not> truthy (own bad_pdf_response ''success'')
   \<and> after_json sample_runtime bad_pdf_response 1700000000900 = Inl (ErrorInstance ''bad pdf'')
   \<and> (0::nat) < length [doc_a] \<and> doc_id ([doc_a] ! 0) = doc_id doc_a
   \<and> stage (marked_error (doc_id doc_a) ''bad pdf'' [doc_a] ! 0) = error
   \<and> result (marked_error (doc_id doc_a) ''bad pdf'' [doc_a] ! 0) = result doc_a
   \<and> (0::nat) < length (calls (run sample_runtime draining_run init))
   \<and> c_main (calls (run sample_runtime draining_run init) ! 0) = AwaitFetch
   \<and> unshared (documents (run sample_runtime draining_run init)) 0
   \<and> processingQueue (run sample_runtime draining_run init)
       = [(make_id 1700000002000 ''p07zzm'', sample_file)]
   \<and> stage (documents (step sample_runtime
         (FetchSettles 0 (Response False ''Internal Server Error'') 1700000002500)
         (run sample_runtime draining_run init)) ! 0) = error
   \<and> error_text (documents (step sample_runtime
         (FetchSettles 0 (Response False ''Internal Server Error'') 1700000002500)
         (run sample_runtime draining_run init)) ! 0)
       = Some ''Server error: Internal Server Error''
   \<and> result (documents (step sample_runtime
         (FetchSettles 0 (Response False ''Internal Server Error'') 1700000002500)
         (run sample_runtime draining_run init)) ! 0) = JNull
   \<and> calls (step sample_runtime
         (FetchSettles 0 (Response False ''Internal Server Error'') 1700000002500)
         (run sample_runtime draining_run init)) ! 1
       = new_call (make_id 1700000002000 ''p07zzm'', sample_file)
   \<and> (0::nat) < length (calls (run sample_runtime awaiting_body_run init))
   \<and> c_main (calls (run sample_runtime awaiting_body_run init) ! 0) = AwaitJson
   \<and> unshared (documents (run sample_runtime awaiting_body_run init)) 0
   \<and> stage (documents (step sample_runtime (JsonSettles 0 (Body bad_pdf_response) 1700000000900)
         (run sample_runtime awaiting_body_run init)) ! 0) = error
   \<and> error_text (documents (step sample_runtime (JsonSettles 0 (Body bad_pdf_response) 1700000000900)
         (run sample_runtime awaiting_body_run init)) ! 0) = Some ''bad pdf''
   \<and> result (documents (step sample_runtime (JsonSettles 0 (Body bad_pdf_response) 1700000000900)
         (run sample_runtime awaiting_body_run init)) ! 0) = JNull"
proof -
  note t = failures_end_in_error [where json = bad_pdf_response and rt = sample_runtime
      and now = 1700000000900 and ds = "[doc_a]" and i = "doc_id doc_a" and m = "''bad pdf''"
      and evs = draining_run and a = 0 and fo = "Response False ''Internal Server Error''"
      and tm = 1700000002500 and item = "(make_id 1700000002000 ''p07zzm'', sample_file)"
      and rest = "[]"]
  note t5 = t [THEN conjunct2, THEN conjunct2, THEN conjunct2, THEN conjunct2, THEN conjunct1]
  note t7 = t [THEN conjunct2, THEN conjunct2, THEN conjunct2, THEN conjunct2, THEN conjunct2,
      THEN conjunct2, THEN conjunct1]
  note t12 = t [THEN conjunct2, THEN conjunct2, THEN conjunct2, THEN conjunct2, THEN conjunct2,
      THEN conjunct2, THEN conjunct2, THEN conjunct2, THEN conjunct2, THEN conjunct2,
      THEN conjunct2, THEN conjunct1]
  note u = failures_end_in_error [where rt = sample_runtime
      and evs = awaiting_body_run and a = 0 and bo = "Body bad_pdf_response"
      and tm = 1700000000900 and ?e2.0 = "ErrorInstance ''bad pdf''"]
  note u13 = u [THEN conjunct2, THEN conjunct2, THEN conjunct2, THEN conjunct2, THEN conjunct2,
      THEN conjunct2, THEN conjunct2, THEN conjunct2, THEN conjunct2, THEN conjunct2,
      THEN conjunct2, THEN conjunct2, THEN conjunct1]
  have h1: "\<not> nullish bad_pdf_response \<and> \<not> truthy (own bad_pdf_response ''success'')"
    by (simp add: bad_pdf_response_def nullish_def)
  have h2: "after_json sample_runtime bad_pdf_response 1700000000900 = Inl (ErrorInstance ''bad pdf'')"
    using t5 h1 by (simp add: bad_pdf_response_def or_else_def)
  have h3: "(0::nat) < length [doc_a] \<and> doc_id ([doc_a] ! 0) = doc_id doc_a"
    by simp
  have c1: "stage (marked_error (doc_id doc_a) ''bad pdf'' [doc_a] ! 0) = error
     \<and> result (marked_error (doc_id doc_a) ''bad pdf'' [doc_a] ! 0) = result doc_a"
    using t7 h3 by simp
  have d1: "(0::nat) < length (calls (run sample_runtime draining_run init))"
    and d2: "c_main (calls (run sample_runtime draining_run init) ! 0) = AwaitFetch"
    by (simp_all add: draining_state(1))
  have d3: "unshared (documents (run sample_runtime draining_run init)) 0"
    by (rule unshared_first [OF draining_ids]) (simp add: make_id_inj)
  note d4 = draining_state(2)
  have len: "length (calls (run sample_runtime draining_run init)) = 1"
    by (simp add: draining_state(1))
  have c2: "stage (documents (step sample_runtime
         (FetchSettles 0 (Response False ''Internal Server Error'') 1700000002500)
         (run sample_runtime draining_run init)) ! 0) = error
   \<and> error_text (documents (step sample_runtime
         (FetchSettles 0 (Response False ''Internal Server Error'') 1700000002500)
         (run sample_runtime draining_run init)) ! 0)
       = Some ''Server error: Internal Server Error''
   \<and> result (documents (step sample_runtime
         (FetchSettles 0 (Response False ''Internal Server Error'') 1700000002500)
         (run sample_runtime draining_run init)) ! 0) = JNull
   \<and> calls (step sample_runtime
         (FetchSettles 0 (Response False ''Internal Server Error'') 1700000002500)
         (run sample_runtime draining_run init)) ! 1
       = new_call (make_id 1700000002000 ''p07zzm'', sample_file)"
    using t12 d1 d2 d3 d4 by (simp add: len fetch_error_def message_of_def)
  have b1: "(0::nat) < length (calls (run sample_runtime awaiting_body_run init))"
    and b2: "c_main (calls (run sample_runtime awaiting_body_run init) ! 0) = AwaitJson"
    by (simp_all add: awaiting_body_state(1))
  have b3: "unshared (documents (run sample_runtime awaiting_body_run init)) 0"
    by (rule unshared_first [OF awaiting_body_state(2)]) simp
  have c3: "stage (documents (step sample_runtime (JsonSettles 0 (Body bad_pdf_response) 1700000000900)
         (run sample_runtime awaiting_body_run init)) ! 0) = error
   \<and> error_text (documents (step sample_runtime (JsonSettles 0 (Body bad_pdf_response) 1700000000900)
         (run sample_runtime awaiting_body_run init)) ! 0) = Some ''bad pdf''
   \<and> result (documents (step sample_runtime (JsonSettles 0 (Body bad_pdf_response) 1700000000900)
         (run sample_runtime awaiting_body_run init)) ! 0) = JNull"
    using u13 b1 b2 b3 h2 by (simp add: message_of_def)
  show ?thesis
    using h1 h2 h3 c1 d1 d2 d3 d4 c2 b1 b2 b3 c3 by simp
qed

text \<open>
  The claim as stated fails for a success flag that is not \<^verbatim>\<open>true\<close> and yet truthy:
  the code tests \<^verbatim>\<open>!json.success\<close>, so the response
  \<^verbatim>\<open>{success:1, data:{extracted_schema:{claims:[]}}}\<close> is no failure, and the document
  ends in \<open>complete\<close> with a result and no error message.
\<close>

theorem truthy_flag_counterexample:
  "own truthy_flag_response ''success'' = JNum 1
   \<and> JNum 1 \<noteq> JBool True
   \<and> map stage (documents (run sample_runtime
         [AddFiles [(sample_file, 1700000000000, ''k3x9qa'')] 1700000000001,
          FetchSettles 0 (Response True ''OK'') 1700000000800,
          JsonSettles 0 (Body truthy_flag_response) 1700000000900] init)) = [complete]
   \<and> map result (documents (run sample_runtime
         [AddFiles [(sample_file, 1700000000000, ''k3x9qa'')] 1700000000001,
          FetchSettles 0 (Response True ''OK'') 1700000000800,
          JsonSettles 0 (Body truthy_flag_response) 1700000000900] init))
       = [JObj [(''claims'', JArr [])]]
   \<and> map error_text (documents (run sample_runtime
         [AddFiles [(sample_file, 1700000000000, ''k3x9qa'')] 1700000000001,
          FetchSettles 0 (Response True ''OK'') 1700000000800,
          JsonSettles 0 (Body truthy_flag_response) 1700000000900] init)) = [None]"
proof -
  have a: "own truthy_flag_response ''success'' = JNum 1"
    by (simp add: truthy_flag_response_def)
  show ?thesis
    unfolding truthy_flag_run using a by (simp add: new_doc_def)
qed

end
